theory Spec2Isabelle
  imports Main "HOL-Library.AList"
begin

section \<open>Python strings and integers\<close>

text \<open>
  A Python \<open>str\<close> is modelled as a \<open>string\<close> whose characters are the code points
  below 256. On that range \<open>str.isspace\<close> (used by \<open>strip()\<close> and by the pattern
  \<open>\s\<close>) holds for the twelve code points of \<open>is_space\<close>, and the pattern \<open>\d\<close>
  holds for the ASCII digits only. \<open>int()\<close> strips a smaller set, \<open>is_int_space\<close>:
  it leaves the four separators 28 to 31 in place. Python's integers are unbounded;
  the interpreter's optional limit on the number of digits that \<open>int()\<close> converts is
  not modelled.
\<close>

definition newline :: char where
  "newline = CHR 0x0A"

definition is_space :: "char \<Rightarrow> bool" where
  "is_space c = (of_char c \<in> {9, 10, 11, 12, 13, 28, 29, 30, 31, 32, 133, 160 :: nat})"

definition is_int_space :: "char \<Rightarrow> bool" where
  "is_int_space c = (of_char c \<in> {9, 10, 11, 12, 13, 32, 133, 160 :: nat})"

definition is_digit :: "char \<Rightarrow> bool" where
  "is_digit c = (48 \<le> (of_char c :: nat) \<and> (of_char c :: nat) \<le> 57)"

definition digit_val :: "char \<Rightarrow> nat" where
  "digit_val c = of_char c - 48"

definition digit_char :: "nat \<Rightarrow> char" where
  "digit_char n = char_of (48 + n)"

text \<open>\<open>s.split(sep)\<close> for a one-character separator: never empty, one more piece than
  there are separators.\<close>

fun split_on :: "char \<Rightarrow> string \<Rightarrow> string list" where
  "split_on sep [] = [[]]"
| "split_on sep (c # cs) =
     (if c = sep then [] # split_on sep cs
      else (case split_on sep cs of
              [] \<Rightarrow> [[c]]
            | piece # pieces \<Rightarrow> (c # piece) # pieces))"

text \<open>\<open>sep.join(pieces)\<close> for a one-character separator.\<close>

fun join_with :: "char \<Rightarrow> string list \<Rightarrow> string" where
  "join_with sep [] = []"
| "join_with sep [p] = p"
| "join_with sep (p # q # ps) = p @ sep # join_with sep (q # ps)"

text \<open>\<open>s.strip()\<close> and \<open>s.strip(chars)\<close> for a single character.\<close>

definition strip :: "string \<Rightarrow> string" where
  "strip s = rev (dropWhile is_space (rev (dropWhile is_space s)))"

definition int_strip :: "string \<Rightarrow> string" where
  "int_strip s = rev (dropWhile is_int_space (rev (dropWhile is_int_space s)))"

definition strip_char :: "char \<Rightarrow> string \<Rightarrow> string" where
  "strip_char ch s = rev (dropWhile (\<lambda>c. c = ch) (rev (dropWhile (\<lambda>c. c = ch) s)))"

text \<open>\<open>s.replace(a, b)\<close> for single characters, \<open>s.startswith\<close>, \<open>s.endswith\<close>,
  \<open>sub in s\<close> and \<open>s.find(sub)\<close>.\<close>

definition replace_char :: "char \<Rightarrow> char \<Rightarrow> string \<Rightarrow> string" where
  "replace_char a b s = map (\<lambda>c. if c = a then b else c) s"

definition startswith :: "string \<Rightarrow> string \<Rightarrow> bool" where
  "startswith s p = (take (length p) s = p)"

definition endswith :: "string \<Rightarrow> string \<Rightarrow> bool" where
  "endswith s p = (length p \<le> length s \<and> drop (length s - length p) s = p)"

fun find_from :: "string \<Rightarrow> string \<Rightarrow> nat \<Rightarrow> nat option" where
  "find_from sub [] i = (if sub = [] then Some i else None)"
| "find_from sub (c # cs) i =
     (if startswith (c # cs) sub then Some i else find_from sub cs (Suc i))"

definition find :: "string \<Rightarrow> string \<Rightarrow> nat option" where
  "find s sub = find_from sub s 0"

definition contains :: "string \<Rightarrow> string \<Rightarrow> bool" where
  "contains s sub = (find s sub \<noteq> None)"

text \<open>
  \<open>int(s)\<close> in base ten: surrounding whitespace is stripped, one sign is allowed, and
  the digits may be separated by single underscores. \<open>None\<close> is \<open>ValueError\<close>.
\<close>

fun valid_int_body :: "string \<Rightarrow> bool" where
  "valid_int_body [] = False"
| "valid_int_body [c] = is_digit c"
| "valid_int_body (c # d # r) =
     (is_digit c \<and> (if d = CHR ''_'' then valid_int_body r else valid_int_body (d # r)))"

definition digits_value :: "string \<Rightarrow> nat" where
  "digits_value ds = foldl (\<lambda>a c. 10 * a + digit_val c) 0 ds"

definition int_body :: "string \<Rightarrow> int option" where
  "int_body b =
     (if valid_int_body b then Some (int (digits_value (filter (\<lambda>c. c \<noteq> CHR ''_'') b)))
      else None)"

definition py_int :: "string \<Rightarrow> int option" where
  "py_int s =
     (case int_strip s of
        [] \<Rightarrow> None
      | c # r \<Rightarrow>
          if c = CHR ''-'' then map_option uminus (int_body r)
          else if c = CHR ''+'' then int_body r
          else int_body (c # r))"

text \<open>\<open>str(n)\<close> for an integer.\<close>

function nat_digits :: "nat \<Rightarrow> string" where
  "nat_digits n =
     (if n < 10 then [digit_char n] else nat_digits (n div 10) @ [digit_char (n mod 10)])"
  by pat_completeness auto
termination
  by (relation "measure id") auto

declare nat_digits.simps [simp del]

definition py_str :: "int \<Rightarrow> string" where
  "py_str i = (if i < 0 then CHR ''-'' # nat_digits (nat (- i)) else nat_digits (nat i))"

text \<open>\<open>s.rjust(w)\<close> (the format \<open>{x:>w}\<close>) and the format \<open>{i:0wd}\<close> for \<open>i \<ge> 0\<close>.\<close>

definition rjust :: "nat \<Rightarrow> char \<Rightarrow> string \<Rightarrow> string" where
  "rjust w fill s = replicate (w - length s) fill @ s"

section \<open>The report parser\<close>

text \<open>
  \<open>parse_gcov_source_path\<close>: the first line that contains \<open>:Source:\<close> decides; the path
  is what follows the first \<open>Source:\<close> of that line, stripped.
\<close>

fun source_path_loop :: "string list \<Rightarrow> string option" where
  "source_path_loop [] = None"
| "source_path_loop (line # ls) =
     (if contains line '':Source:'' then
        (case find line ''Source:'' of
           Some idx \<Rightarrow> Some (strip (drop (idx + 7) line))
         | None \<Rightarrow> source_path_loop ls)
      else source_path_loop ls)"

definition parse_gcov_source_path :: "string \<Rightarrow> string option" where
  "parse_gcov_source_path content = source_path_loop (split_on newline content)"

text \<open>
  The two line patterns. The classes \<open>\s\<close>, \<open>[-0-9#]\<close> and \<open>:\<close> are pairwise disjoint
  and \<open>\d\<close> lies inside \<open>[-0-9#]\<close>, so each greedy repetition takes the longest run
  and backtracking never finds another match: the match is a left-to-right scan.
  The result holds the text of the groups.
\<close>

definition is_marker :: "char \<Rightarrow> bool" where
  "is_marker c = (c = CHR ''-'' \<or> is_digit c \<or> c = CHR ''#'')"

text \<open>\<open>re.match(r"^\s*([-0-9#]+):\s*(\d+):", line)\<close>: groups 1 and 2.\<close>

definition match_coverage :: "string \<Rightarrow> (string \<times> string) option" where
  "match_coverage line =
     (let s1 = dropWhile is_space line;
          g1 = takeWhile is_marker s1;
          s2 = dropWhile is_marker s1
      in if g1 = [] then None
         else (case s2 of
                 [] \<Rightarrow> None
               | c # s3 \<Rightarrow>
                   if c \<noteq> CHR '':'' then None
                   else (let s4 = dropWhile is_space s3;
                             g2 = takeWhile is_digit s4;
                             s5 = dropWhile is_digit s4
                         in if g2 = [] then None
                            else (case s5 of
                                    [] \<Rightarrow> None
                                  | d # s6 \<Rightarrow> if d = CHR '':'' then Some (g1, g2) else None))))"

text \<open>
  The tail \<open>(.*)$\<close>: \<open>.\<close> stops at a newline and \<open>$\<close> holds at the end of the
  text or before a final newline.
\<close>

definition match_tail :: "string \<Rightarrow> string option" where
  "match_tail s =
     (let r = takeWhile (\<lambda>c. c \<noteq> newline) s
      in if r = s \<or> r @ [newline] = s then Some r else None)"

text \<open>\<open>re.match(r"^(\s*)([-0-9#]+)(\s*):\s*(\d+):(.*)$", line)\<close>: groups 2, 4 and 5.\<close>

definition match_line :: "string \<Rightarrow> (string \<times> string \<times> string) option" where
  "match_line line =
     (let s1 = dropWhile is_space line;
          count_str = takeWhile is_marker s1;
          s2 = dropWhile is_space (dropWhile is_marker s1)
      in if count_str = [] then None
         else (case s2 of
                 [] \<Rightarrow> None
               | c # s3 \<Rightarrow>
                   if c \<noteq> CHR '':'' then None
                   else (let s4 = dropWhile is_space s3;
                             line_num = takeWhile is_digit s4;
                             s5 = dropWhile is_digit s4
                         in if line_num = [] then None
                            else (case s5 of
                                    [] \<Rightarrow> None
                                  | d # s6 \<Rightarrow>
                                      if d \<noteq> CHR '':'' then None
                                      else map_option (\<lambda>rest. (count_str, line_num, rest))
                                             (match_tail s6)))))"

text \<open>
  \<open>parse_gcov_coverage\<close>. The dictionary is an association list in insertion order:
  \<open>AList.update\<close> overwrites a present key in place and appends a new one, as a Python
  \<open>dict\<close> does. \<open>None\<close> is the \<open>ValueError\<close> that \<open>int(m.group(2))\<close> would let
  escape; the \<open>int(cov_str)\<close> of the last branch is caught by the code.
\<close>

type_synonym execution_map = "(int \<times> int) list"

definition coverage_line :: "execution_map \<Rightarrow> string \<Rightarrow> execution_map option" where
  "coverage_line coverage line =
     (case match_coverage line of
        None \<Rightarrow> Some coverage
      | Some (g1, g2) \<Rightarrow>
          (case py_int g2 of
             None \<Rightarrow> None
           | Some line_num \<Rightarrow>
               (let cov_str = strip g1
                in if cov_str = ''-'' then Some coverage
                   else if cov_str = ''#####'' then Some (AList.update line_num 0 coverage)
                   else (case py_int cov_str of
                           Some n \<Rightarrow> Some (AList.update line_num n coverage)
                         | None \<Rightarrow> Some (AList.update line_num 0 coverage)))))"

fun coverage_loop :: "string list \<Rightarrow> execution_map \<Rightarrow> execution_map option" where
  "coverage_loop [] coverage = Some coverage"
| "coverage_loop (line # ls) coverage =
     (case coverage_line coverage line of
        None \<Rightarrow> None
      | Some coverage' \<Rightarrow> coverage_loop ls coverage')"

definition parse_gcov_coverage :: "string \<Rightarrow> execution_map option" where
  "parse_gcov_coverage content = coverage_loop (split_on newline content) []"

text \<open>
  The entry that one line adds to the dictionary, as \<open>coverage_line\<close> computes it
  (lemma \<open>coverage_line_eq\<close>): none for a line outside the pattern or with the
  marker \<open>-\<close>.
\<close>

definition line_contribution :: "string \<Rightarrow> (int \<times> int) option" where
  "line_contribution line =
     (case match_coverage line of
        None \<Rightarrow> None
      | Some (g1, g2) \<Rightarrow>
          if g1 = ''-'' then None
          else Some (int (digits_value g2),
                     if g1 = ''#####'' then 0
                     else (case py_int g1 of Some n \<Rightarrow> n | None \<Rightarrow> 0)))"

definition contribute :: "execution_map \<Rightarrow> string \<Rightarrow> execution_map" where
  "contribute cov line =
     (case line_contribution line of
        None \<Rightarrow> cov
      | Some (n, v) \<Rightarrow> AList.update n v cov)"

text \<open>The execution map of a snapshot, as \<open>parse_gcov_coverage\<close> returns it
  (lemma \<open>parse_gcov_coverage_eq\<close>).\<close>

definition cov_of :: "string \<Rightarrow> execution_map" where
  "cov_of content = foldl contribute [] (split_on newline content)"

text \<open>\<open>parse_gcov_lines\<close>: one triple \<open>(count_str, line_num, rest)\<close> per line.\<close>

type_synonym line_record = "string \<times> int \<times> string"

definition lines_line :: "line_record list \<Rightarrow> string \<Rightarrow> line_record list option" where
  "lines_line lines_out line =
     (case match_line line of
        None \<Rightarrow> Some (lines_out @ [(''-'', 0, line)])
      | Some (count_str, line_num, rest) \<Rightarrow>
          (case py_int line_num of
             None \<Rightarrow> None
           | Some n \<Rightarrow> Some (lines_out @ [(strip count_str, n, rest)])))"

fun lines_loop :: "string list \<Rightarrow> line_record list \<Rightarrow> line_record list option" where
  "lines_loop [] lines_out = Some lines_out"
| "lines_loop (line # ls) lines_out =
     (case lines_line lines_out line of
        None \<Rightarrow> None
      | Some lines_out' \<Rightarrow> lines_loop ls lines_out')"

definition parse_gcov_lines :: "string \<Rightarrow> line_record list option" where
  "parse_gcov_lines content = lines_loop (split_on newline content) []"

text \<open>
  The record that one line adds to the list, as \<open>lines_line\<close> computes it
  (lemma \<open>lines_line_eq\<close>).
\<close>

definition line_record_of :: "string \<Rightarrow> line_record" where
  "line_record_of line =
     (case match_line line of
        None \<Rightarrow> (''-'', 0, line)
      | Some (count_str, line_num, rest) \<Rightarrow> (count_str, int (digits_value line_num), rest))"

section \<open>The coverage merger and the cumulative report\<close>

text \<open>
  The two sets that \<open>write_cumulative_gcov\<close> accumulates, and the body of its inner
  loop over \<open>cov.items()\<close>.
\<close>

record merged_coverage =
  merged_covered :: "int set"
  merged_executable :: "int set"

definition empty_merged :: merged_coverage where
  "empty_merged = \<lparr>merged_covered = {}, merged_executable = {}\<rparr>"

fun merge :: "merged_coverage \<Rightarrow> execution_map \<Rightarrow> merged_coverage" where
  "merge m [] = m"
| "merge m ((line_num, count) # items) =
     merge (let m1 = m\<lparr>merged_executable := insert line_num (merged_executable m)\<rparr>
            in if count > 0 then m1\<lparr>merged_covered := insert line_num (merged_covered m1)\<rparr>
               else m1) items"

text \<open>Folding a sequence of execution maps, first to last, from the empty sets.\<close>

definition fold_maps :: "execution_map list \<Rightarrow> merged_coverage" where
  "fold_maps covs = foldl merge empty_merged covs"

text \<open>
  The second loop of \<open>write_cumulative_gcov\<close>: the prefix of one output line and
  the line \<open>f"{prefix}: {line_num:>4}:{rest}"\<close>.
\<close>

definition cumulative_prefix :: "string \<Rightarrow> int \<Rightarrow> merged_coverage \<Rightarrow> string" where
  "cumulative_prefix count_str line_num m =
     (if count_str = ''-'' then ''        -''
      else if line_num \<in> merged_covered m then ''        +''
      else if line_num \<in> merged_executable m then ''    #####''
      else ''        -'')"

definition cumulative_line :: "merged_coverage \<Rightarrow> line_record \<Rightarrow> string" where
  "cumulative_line m rec =
     (case rec of (count_str, line_num, rest) \<Rightarrow>
        cumulative_prefix count_str line_num m @ '': '' @
        rjust 4 CHR '' '' (py_str line_num) @ '':'' @ rest)"

fun out_lines_loop :: "merged_coverage \<Rightarrow> line_record list \<Rightarrow> string list \<Rightarrow> string list" where
  "out_lines_loop m [] out_lines = out_lines"
| "out_lines_loop m (rec # recs) out_lines =
     out_lines_loop m recs (out_lines @ [cumulative_line m rec])"

definition cumulative_lines :: "line_record list \<Rightarrow> merged_coverage \<Rightarrow> string list" where
  "cumulative_lines template m = out_lines_loop m template []"

text \<open>
  \<open>write_cumulative_gcov\<close>. The file system is a map from paths to the text of the
  files that exist. The first loop carries the merged sets and the template.
\<close>

record cumulative_state =
  merged :: merged_coverage
  template_lines :: "line_record list"

fun read_loop ::
  "('p \<Rightarrow> string option) \<Rightarrow> 'p list \<Rightarrow> cumulative_state \<Rightarrow> cumulative_state option" where
  "read_loop fs [] st = Some st"
| "read_loop fs (p # ps) st =
     (case fs p of
        None \<Rightarrow> read_loop fs ps st
      | Some content \<Rightarrow>
          (case parse_gcov_coverage content of
             None \<Rightarrow> None
           | Some cov \<Rightarrow>
               (let st1 = st\<lparr>merged := merge (merged st) cov\<rparr>
                in if template_lines st1 = [] then
                     (case parse_gcov_lines content of
                        None \<Rightarrow> None
                      | Some ls \<Rightarrow> read_loop fs ps (st1\<lparr>template_lines := ls\<rparr>))
                   else read_loop fs ps st1)))"

datatype write_result = ReturnedFalse | Written string

definition write_cumulative_gcov ::
  "('p \<Rightarrow> string option) \<Rightarrow> 'p list \<Rightarrow> write_result option" where
  "write_cumulative_gcov fs gcov_paths =
     (if gcov_paths = [] then Some ReturnedFalse
      else (case read_loop fs gcov_paths \<lparr>merged = empty_merged, template_lines = []\<rparr> of
              None \<Rightarrow> None
            | Some st \<Rightarrow>
                if template_lines st = [] then Some ReturnedFalse
                else Some (Written
                       (join_with newline (cumulative_lines (template_lines st) (merged st))
                        @ [newline]))))"

section \<open>The tracefile exporters\<close>

text \<open>\<open>a or b\<close> on an optional text: \<open>None\<close> and the empty text are false.\<close>

fun str_or :: "string option \<Rightarrow> string \<Rightarrow> string" where
  "str_or None d = d"
| "str_or (Some s) d = (if s = [] then d else s)"

text \<open>
  \<open>gcov_to_lcov_info\<close>. \<open>cov[ln]\<close> is a lookup that raises \<open>KeyError\<close> on a missing
  key (\<open>None\<close> here).
\<close>

definition da_line :: "execution_map \<Rightarrow> int \<Rightarrow> string option" where
  "da_line cov ln =
     map_option (\<lambda>c. ''DA:'' @ py_str ln @ '','' @ py_str c) (map_of cov ln)"

definition gcov_to_lcov_info :: "string \<Rightarrow> string option \<Rightarrow> string option" where
  "gcov_to_lcov_info content source_path =
     (let path = str_or source_path (str_or (parse_gcov_source_path content) ''unknown.c'')
      in case parse_gcov_coverage content of
           None \<Rightarrow> None
         | Some cov \<Rightarrow>
             (case those (map (da_line cov) (sort (map fst cov))) of
                None \<Rightarrow> None
              | Some das \<Rightarrow>
                  Some (join_with newline ((''SF:'' @ path) # das @ [''end_of_record'']))))"

text \<open>
  \<open>normalize_gcovr_file_path\<close>. Resolving the path below the object directory
  and making it relative to the workspace root reads the file system; it is the
  parameter \<open>resolve\<close>, \<open>None\<close> where the code catches \<open>ValueError\<close> or \<open>OSError\<close>.
\<close>

definition normalize_gcovr_file_path :: "string \<Rightarrow> (string \<Rightarrow> string option) \<Rightarrow> string" where
  "normalize_gcovr_file_path source_path resolve =
     (if source_path = [] \<or> source_path = ''unknown.c''
      then str_or (Some source_path) ''unknown.c''
      else (case resolve source_path of
              Some resolved \<Rightarrow> resolved
            | None \<Rightarrow> source_path))"

datatype json = JStr string | JInt int | JList "json list" | JDict "(string \<times> json) list"

definition line_entry :: "execution_map \<Rightarrow> int \<Rightarrow> json option" where
  "line_entry cov ln =
     map_option
       (\<lambda>c. JDict [(''line_number'', JInt ln), (''function_name'', JStr []),
                    (''count'', JInt c), (''branches'', JList [])])
       (map_of cov ln)"

definition gcov_to_gcovr_json ::
  "string \<Rightarrow> string option \<Rightarrow> (string \<Rightarrow> string option) option \<Rightarrow> json option" where
  "gcov_to_gcovr_json content source_path workspace_root =
     (let raw_path = str_or source_path (str_or (parse_gcov_source_path content) ''unknown.c'');
          path = (case workspace_root of
                    Some resolve \<Rightarrow> normalize_gcovr_file_path raw_path resolve
                  | None \<Rightarrow> raw_path)
      in case parse_gcov_coverage content of
           None \<Rightarrow> None
         | Some cov \<Rightarrow>
             (case those (map (line_entry cov) (sort (map fst cov))) of
                None \<Rightarrow> None
              | Some line_entries \<Rightarrow>
                  Some (JDict [(''gcovr/format_version'', JStr ''0.14''),
                               (''files'', JList [JDict [(''file'', JStr path),
                                                         (''lines'', JList line_entries),
                                                         (''functions'', JList [])]])])))"

text \<open>
  \<open>convert_dir_to_tracefiles\<close>. The directory is the list of the texts of its
  snapshot files in the sorted order of their names; the result lists the files
  written below \<open>out_dir\<close>, name and content, in the order of \<open>info_paths\<close> and
  \<open>json_paths\<close>.
\<close>

record convert_state =
  idx :: nat
  info_files :: "(string \<times> string) list"
  json_files :: "(string \<times> json) list"

definition tracefile_name :: "string \<Rightarrow> nat \<Rightarrow> string \<Rightarrow> string" where
  "tracefile_name base_name i ext = base_name @ ''_'' @ rjust 5 CHR ''0'' (nat_digits i) @ ext"

definition skip_snapshot :: "bool \<Rightarrow> string option \<Rightarrow> bool" where
  "skip_snapshot only_c_sources source_path =
     (only_c_sources \<and>
      (case source_path of
         None \<Rightarrow> True
       | Some s \<Rightarrow> s = [] \<or> \<not> endswith s ''.c''))"

fun convert_loop ::
  "string \<Rightarrow> (string \<Rightarrow> string option) option \<Rightarrow> bool \<Rightarrow> string list \<Rightarrow> convert_state \<Rightarrow>
   convert_state option" where
  "convert_loop base_name workspace_root only_c_sources [] st = Some st"
| "convert_loop base_name workspace_root only_c_sources (content # rest) st =
     (let source_path = parse_gcov_source_path content
      in if skip_snapshot only_c_sources source_path
         then convert_loop base_name workspace_root only_c_sources rest st
         else (case gcov_to_lcov_info content source_path of
                 None \<Rightarrow> None
               | Some info_content \<Rightarrow>
                   (case gcov_to_gcovr_json content source_path workspace_root of
                      None \<Rightarrow> None
                    | Some j \<Rightarrow>
                        convert_loop base_name workspace_root only_c_sources rest
                          \<lparr>idx = idx st + 1,
                           info_files = info_files st @
                             [(tracefile_name base_name (idx st) ''.info'', info_content)],
                           json_files = json_files st @
                             [(tracefile_name base_name (idx st) ''.json'', j)]\<rparr>)))"

definition convert_dir_to_tracefiles ::
  "string list \<Rightarrow> string \<Rightarrow> (string \<Rightarrow> string option) option \<Rightarrow> bool \<Rightarrow>
   convert_state option" where
  "convert_dir_to_tracefiles gcov_files base_name workspace_root only_c_sources =
     convert_loop base_name workspace_root only_c_sources gcov_files
       \<lparr>idx = 0, info_files = [], json_files = []\<rparr>"

section \<open>Grouping by source and directory names\<close>

definition backslash :: char where
  "backslash = CHR 0x5C"

text \<open>\<open>_source_to_dirname\<close>.\<close>

definition source_to_dirname :: "string \<Rightarrow> string" where
  "source_to_dirname source_path =
     (if source_path = [] \<or> source_path = ''unknown.c'' then ''unknown''
      else (let s = strip (replace_char backslash CHR ''/'' source_path);
                s' = (if startswith s ''../'' then drop 3 s
                      else if startswith s ''./'' then drop 2 s
                      else s)
            in str_or (Some (strip_char CHR ''_'' (replace_char CHR ''/'' CHR ''_'' s')))
                 ''unknown''))"

text \<open>
  \<open>group_gcov_paths_by_source\<close>: the groups are a dictionary from the key to the
  list of its paths, in insertion order.
\<close>

definition group_step ::
  "('p \<Rightarrow> string option) \<Rightarrow> (string \<times> 'p list) list \<Rightarrow> 'p \<Rightarrow> (string \<times> 'p list) list" where
  "group_step fs groups p =
     (case fs p of
        None \<Rightarrow> groups
      | Some content \<Rightarrow>
          (let source = str_or (parse_gcov_source_path content) ''unknown.c'';
               key = strip (replace_char backslash CHR ''/'' source)
           in (case map_of groups key of
                 None \<Rightarrow> AList.update key [p] groups
               | Some ps \<Rightarrow> AList.update key (ps @ [p]) groups)))"

definition group_gcov_paths_by_source ::
  "('p \<Rightarrow> string option) \<Rightarrow> 'p list \<Rightarrow> (string \<times> 'p list) list" where
  "group_gcov_paths_by_source fs gcov_paths = foldl (group_step fs) [] gcov_paths"

section \<open>Readers of the two tracefile formats\<close>

text \<open>
  The repository writes the two artifacts and leaves reading them to lcov and gcovr.
  These readers follow the grammar of the artifacts: in the line-trace text every
  record \<open>DA:<line>,<count>\<close> is one entry and every other line (the \<open>SF:\<close>
  header, \<open>end_of_record\<close>) is none; in the structured trace the entries are the
  \<open>line_number\<close> and \<open>count\<close> of the objects under \<open>lines\<close> of the one file.
\<close>

definition split_at_first :: "char \<Rightarrow> string \<Rightarrow> (string \<times> string) option" where
  "split_at_first ch s =
     (if ch \<in> set s
      then Some (takeWhile (\<lambda>c. c \<noteq> ch) s, drop 1 (dropWhile (\<lambda>c. c \<noteq> ch) s))
      else None)"

definition read_da_record :: "string \<Rightarrow> (int \<times> int) option" where
  "read_da_record line =
     (if startswith line ''DA:'' then
        (case split_at_first CHR '','' (drop 3 line) of
           None \<Rightarrow> None
         | Some (a, b) \<Rightarrow>
             (case py_int a of
                None \<Rightarrow> None
              | Some ln \<Rightarrow> (case py_int b of None \<Rightarrow> None | Some c \<Rightarrow> Some (ln, c))))
      else None)"

definition read_entry :: "execution_map \<Rightarrow> (int \<times> int) option \<Rightarrow> execution_map" where
  "read_entry cov e = (case e of None \<Rightarrow> cov | Some (ln, c) \<Rightarrow> AList.update ln c cov)"

definition read_lcov_info :: "string \<Rightarrow> execution_map" where
  "read_lcov_info text = foldl read_entry [] (map read_da_record (split_on newline text))"

fun json_get :: "json \<Rightarrow> string \<Rightarrow> json option" where
  "json_get (JDict kvs) k = map_of kvs k"
| "json_get _ k = None"

definition read_gcovr_line :: "json \<Rightarrow> (int \<times> int) option" where
  "read_gcovr_line e =
     (case json_get e ''line_number'' of
        Some (JInt ln) \<Rightarrow> (case json_get e ''count'' of Some (JInt c) \<Rightarrow> Some (ln, c) | _ \<Rightarrow> None)
      | _ \<Rightarrow> None)"

definition read_gcovr_json :: "json \<Rightarrow> execution_map option" where
  "read_gcovr_json j =
     (case json_get j ''files'' of
        Some (JList [f]) \<Rightarrow>
          (case json_get f ''lines'' of
             Some (JList es) \<Rightarrow> Some (foldl read_entry [] (map read_gcovr_line es))
           | _ \<Rightarrow> None)
      | _ \<Rightarrow> None)"

section \<open>Facts about strings and integers\<close>

lemma digit_not_space: "is_digit c \<Longrightarrow> \<not> is_space c"
  by (auto simp: is_digit_def is_space_def)

lemma marker_not_space: "is_marker c \<Longrightarrow> \<not> is_space c"
  by (auto simp: is_marker_def is_digit_def is_space_def)

lemma digit_not_sign: "is_digit c \<Longrightarrow> c \<noteq> CHR ''-'' \<and> c \<noteq> CHR ''+'' \<and> c \<noteq> CHR ''_''"
  by (auto simp: is_digit_def)

lemma digit_is_marker: "is_digit c \<Longrightarrow> is_marker c"
  by (simp add: is_marker_def)

lemma colon_not_marker: "\<not> is_marker CHR '':'' \<and> \<not> is_space CHR '':'' \<and> \<not> is_digit CHR '':''"
  by (simp add: is_marker_def is_digit_def is_space_def)

lemma is_digit_digit_char: "n < 10 \<Longrightarrow> is_digit (digit_char n)"
  by (simp add: is_digit_def digit_char_def)

lemma digit_val_digit_char: "n < 10 \<Longrightarrow> digit_val (digit_char n) = n"
  by (simp add: digit_val_def digit_char_def)

lemma dropWhile_none: "\<forall>c\<in>set s. \<not> P c \<Longrightarrow> dropWhile P s = s"
  by (cases s) auto

lemma strip_no_space: "\<forall>c\<in>set s. \<not> is_space c \<Longrightarrow> strip s = s"
  by (simp add: strip_def dropWhile_none)

lemma int_space_is_space: "is_int_space c \<Longrightarrow> is_space c"
  by (auto simp: is_int_space_def is_space_def)

lemma int_strip_no_space:
  assumes "\<forall>c\<in>set s. \<not> is_space c"
  shows "int_strip s = s"
proof -
  have "\<forall>c\<in>set s. \<not> is_int_space c"
    using assms int_space_is_space by blast
  then show ?thesis by (simp add: int_strip_def dropWhile_none)
qed

lemma valid_int_body_digits: "s \<noteq> [] \<Longrightarrow> \<forall>c\<in>set s. is_digit c \<Longrightarrow> valid_int_body s"
  by (induction s rule: valid_int_body.induct) (auto dest: digit_not_sign)

lemma filter_digits: "\<forall>c\<in>set s. is_digit c \<Longrightarrow> filter (\<lambda>c. c \<noteq> CHR ''_'') s = s"
  by (induction s) (auto dest: digit_not_sign)

lemma int_body_digits: "s \<noteq> [] \<Longrightarrow> \<forall>c\<in>set s. is_digit c \<Longrightarrow> int_body s = Some (int (digits_value s))"
  by (simp add: int_body_def valid_int_body_digits filter_digits)

lemma py_int_digits:
  assumes "s \<noteq> []" "\<forall>c\<in>set s. is_digit c"
  shows "py_int s = Some (int (digits_value s))"
proof -
  have "int_strip s = s" using assms(2) by (intro int_strip_no_space) (auto dest: digit_not_space)
  moreover obtain c r where s: "s = c # r" using assms(1) by (cases s) auto
  moreover have "is_digit c" using assms(2) s by simp
  ultimately show ?thesis
    using int_body_digits[OF assms] by (auto simp: py_int_def dest: digit_not_sign)
qed

lemma py_int_neg_digits:
  assumes "s \<noteq> []" "\<forall>c\<in>set s. is_digit c"
  shows "py_int (CHR ''-'' # s) = Some (- int (digits_value s))"
proof -
  have "\<not> is_space CHR ''-''" by (simp add: is_space_def)
  then have "\<forall>c\<in>set (CHR ''-'' # s). \<not> is_space c"
    using assms(2) digit_not_space by auto
  then have "int_strip (CHR ''-'' # s) = CHR ''-'' # s" by (rule int_strip_no_space)
  then show ?thesis using int_body_digits[OF assms] by (simp add: py_int_def)
qed

lemma digits_value_snoc: "digits_value (ds @ [c]) = 10 * digits_value ds + digit_val c"
  by (simp add: digits_value_def)

lemma nat_digits_props: "nat_digits n \<noteq> [] \<and> (\<forall>c\<in>set (nat_digits n). is_digit c) \<and> digits_value (nat_digits n) = n"
proof (induction n rule: nat_digits.induct)
  case (1 n)
  show ?case
  proof (cases "n < 10")
    case True
    then show ?thesis
      by (subst (1 2 3) nat_digits.simps) (simp add: is_digit_digit_char digit_val_digit_char digits_value_def)
  next
    case False
    with 1 show ?thesis
      by (subst (1 2 3) nat_digits.simps) (auto simp: is_digit_digit_char digit_val_digit_char digits_value_snoc)
  qed
qed

lemma py_int_py_str: "py_int (py_str i) = Some i"
  using nat_digits_props[of "nat i"] nat_digits_props[of "nat (- i)"]
  by (auto simp: py_str_def py_int_digits py_int_neg_digits)

lemma split_on_nonempty: "split_on sep s \<noteq> []"
  by (induction s) (auto split: list.splits)

lemma split_on_no_sep: "p \<in> set (split_on sep s) \<Longrightarrow> sep \<notin> set p"
  by (induction s arbitrary: p) (auto split: list.splits if_splits)

lemma join_split: "join_with sep (split_on sep s) = s"
proof (induction s)
  case Nil
  show ?case by simp
next
  case (Cons c s)
  show ?case
  proof (cases "split_on sep s")
    case Nil
    then show ?thesis using split_on_nonempty by blast
  next
    case (Cons p ps)
    with Cons.IH show ?thesis by (cases ps) auto
  qed
qed

lemma split_on_Cons_nosep: "sep \<notin> set p \<Longrightarrow> split_on sep (p @ sep # s) = p # split_on sep s"
  by (induction p) auto

lemma split_on_nosep: "sep \<notin> set p \<Longrightarrow> split_on sep p = [p]"
  by (induction p) auto

lemma split_join: "ps \<noteq> [] \<Longrightarrow> \<forall>p\<in>set ps. sep \<notin> set p \<Longrightarrow> split_on sep (join_with sep ps) = ps"
  by (induction ps rule: join_with.induct) (auto simp: split_on_Cons_nosep split_on_nosep)

lemma split_on_snoc_sep: "split_on sep (s @ [sep]) = split_on sep s @ [[]]"
proof (induction s)
  case Nil
  show ?case by simp
next
  case (Cons c s)
  then show ?case
    using split_on_nonempty[of sep s] by (cases "split_on sep s") auto
qed

lemma length_split_on: "length (split_on sep s) = count_list s sep + 1"
proof (induction s)
  case Nil
  show ?case by simp
next
  case (Cons c s)
  then show ?case
    using split_on_nonempty[of sep s] by (cases "split_on sep s") auto
qed

section \<open>Facts about the line patterns\<close>

lemma takeWhile_run: "\<forall>x\<in>set xs. P x \<Longrightarrow> \<not> P y \<Longrightarrow> takeWhile P (xs @ y # ys) = xs"
  by (induction xs) auto

lemma dropWhile_run: "\<forall>x\<in>set xs. P x \<Longrightarrow> \<not> P y \<Longrightarrow> dropWhile P (xs @ y # ys) = y # ys"
  by (induction xs) auto

lemma match_tail_no_newline:
  assumes "newline \<notin> set s"
  shows "match_tail s = Some s"
proof -
  have "takeWhile (\<lambda>c. c \<noteq> newline) s = s"
    using assms by (induction s) auto
  then show ?thesis by (simp add: match_tail_def)
qed

lemma match_tail_Some:
  assumes "match_tail s = Some r"
  shows "newline \<notin> set r \<and> (s = r \<or> s = r @ [newline])"
proof -
  have r: "r = takeWhile (\<lambda>c. c \<noteq> newline) s" and d: "r = s \<or> r @ [newline] = s"
    using assms unfolding match_tail_def Let_def
    by (metis option.inject option.distinct(1))+
  have "newline \<notin> set r"
    unfolding r by (auto dest: set_takeWhileD)
  with d show ?thesis by auto
qed

lemma match_coverage_groups:
  assumes "match_coverage line = Some (g1, g2)"
  shows "g1 \<noteq> [] \<and> (\<forall>c\<in>set g1. is_marker c) \<and> g2 \<noteq> [] \<and> (\<forall>c\<in>set g2. is_digit c)"
  using assms unfolding match_coverage_def Let_def
  by (auto split: list.splits if_splits dest: set_takeWhileD)

lemma match_line_groups:
  assumes "match_line line = Some (count_str, line_num, rest)"
  shows "count_str \<noteq> [] \<and> (\<forall>c\<in>set count_str. is_marker c) \<and>
         line_num \<noteq> [] \<and> (\<forall>c\<in>set line_num. is_digit c) \<and> newline \<notin> set rest"
  using assms unfolding match_line_def Let_def
  by (auto split: list.splits if_splits dest: set_takeWhileD match_tail_Some)

text \<open>The scan finds exactly the texts of the pattern's language.\<close>

lemma match_coverage_sound:
  assumes "match_coverage line = Some (g1, g2)"
  shows "\<exists>lead ws rest. line = lead @ g1 @ '':'' @ ws @ g2 @ '':'' @ rest \<and>
           (\<forall>c\<in>set lead. is_space c) \<and> (\<forall>c\<in>set ws. is_space c)"
proof -
  define s1 where "s1 = dropWhile is_space line"
  define s2 where "s2 = dropWhile is_marker s1"
  from assms obtain s3 where s2: "s2 = CHR '':'' # s3" and g1: "g1 = takeWhile is_marker s1"
    unfolding match_coverage_def Let_def s1_def s2_def
    by (auto split: list.splits if_splits)
  define s4 where "s4 = dropWhile is_space s3"
  define s5 where "s5 = dropWhile is_digit s4"
  from assms s2 obtain s6 where s5: "s5 = CHR '':'' # s6" and g2: "g2 = takeWhile is_digit s4"
    unfolding match_coverage_def Let_def s1_def s2_def s4_def s5_def
    by (auto split: list.splits if_splits)
  have "line = takeWhile is_space line @ s1" by (simp add: s1_def)
  moreover have "s1 = g1 @ s2" by (simp add: g1 s2_def)
  moreover have "s3 = takeWhile is_space s3 @ s4" by (simp add: s4_def)
  moreover have "s4 = g2 @ s5" by (simp add: g2 s5_def)
  ultimately have "line = takeWhile is_space line @ g1 @ '':'' @ takeWhile is_space s3 @ g2 @ '':'' @ s6"
    using s2 s5 by simp
  moreover have "\<forall>c\<in>set (takeWhile is_space line). is_space c" "\<forall>c\<in>set (takeWhile is_space s3). is_space c"
    by (auto dest: set_takeWhileD)
  ultimately show ?thesis by blast
qed

lemma match_coverage_complete:
  assumes "line = lead @ g1 @ '':'' @ ws @ g2 @ '':'' @ rest"
    and "\<forall>c\<in>set lead. is_space c" "\<forall>c\<in>set ws. is_space c"
    and "g1 \<noteq> []" "\<forall>c\<in>set g1. is_marker c" "g2 \<noteq> []" "\<forall>c\<in>set g2. is_digit c"
  shows "match_coverage line = Some (g1, g2)"
proof -
  obtain a g1' where g1: "g1 = a # g1'" using assms(4) by (cases g1) auto
  obtain b g2' where g2: "g2 = b # g2'" using assms(6) by (cases g2) auto
  have a: "\<not> is_space a" using assms(5) g1 marker_not_space by auto
  have b: "\<not> is_space b" using assms(7) g2 digit_not_space by auto
  have s1: "dropWhile is_space line = g1 @ CHR '':'' # ws @ g2 @ '':'' @ rest"
    using dropWhile_run[OF assms(2) a, of "g1' @ '':'' @ ws @ g2 @ '':'' @ rest"]
    by (simp add: assms(1) g1)
  have t1: "takeWhile is_marker (g1 @ CHR '':'' # ws @ g2 @ '':'' @ rest) = g1"
    using takeWhile_run[OF assms(5)] colon_not_marker by blast
  have d1: "dropWhile is_marker (g1 @ CHR '':'' # ws @ g2 @ '':'' @ rest) = CHR '':'' # ws @ g2 @ '':'' @ rest"
    using dropWhile_run[OF assms(5)] colon_not_marker by blast
  have s4: "dropWhile is_space (ws @ g2 @ CHR '':'' # rest) = g2 @ CHR '':'' # rest"
    using dropWhile_run[OF assms(3) b, of "g2' @ '':'' @ rest"] by (simp add: g2)
  have t2: "takeWhile is_digit (g2 @ CHR '':'' # rest) = g2"
    using takeWhile_run[OF assms(7)] colon_not_marker by blast
  have d2: "dropWhile is_digit (g2 @ CHR '':'' # rest) = CHR '':'' # rest"
    using dropWhile_run[OF assms(7)] colon_not_marker by blast
  show ?thesis
    unfolding match_coverage_def Let_def s1 t1 d1
    using assms(4,6) by (simp add: s4 t2 d2)
qed

lemma match_line_sound:
  assumes "match_line line = Some (count_str, line_num, rest)"
  shows "\<exists>lead gap ws tail. line = lead @ count_str @ gap @ '':'' @ ws @ line_num @ '':'' @ tail \<and>
           (\<forall>c\<in>set lead. is_space c) \<and> (\<forall>c\<in>set gap. is_space c) \<and>
           (\<forall>c\<in>set ws. is_space c) \<and> (tail = rest \<or> tail = rest @ [newline])"
proof -
  define s1 where "s1 = dropWhile is_space line"
  define m where "m = dropWhile is_marker s1"
  define s2 where "s2 = dropWhile is_space m"
  from assms obtain s3 where s2: "s2 = CHR '':'' # s3" and c: "count_str = takeWhile is_marker s1"
    unfolding match_line_def Let_def s1_def s2_def m_def
    by (auto split: list.splits if_splits)
  define s4 where "s4 = dropWhile is_space s3"
  define s5 where "s5 = dropWhile is_digit s4"
  from assms s2 obtain s6 where s5: "s5 = CHR '':'' # s6" and n: "line_num = takeWhile is_digit s4"
    and t: "match_tail s6 = Some rest"
    unfolding match_line_def Let_def s1_def s2_def m_def s4_def s5_def
    by (auto split: list.splits if_splits)
  have "line = takeWhile is_space line @ s1" by (simp add: s1_def)
  moreover have "s1 = count_str @ m" by (simp add: c m_def)
  moreover have "m = takeWhile is_space m @ s2" by (simp add: s2_def)
  moreover have "s3 = takeWhile is_space s3 @ s4" by (simp add: s4_def)
  moreover have "s4 = line_num @ s5" by (simp add: n s5_def)
  ultimately have "line = takeWhile is_space line @ count_str @ takeWhile is_space m @ '':'' @
      takeWhile is_space s3 @ line_num @ '':'' @ s6"
    using s2 s5 by simp
  moreover have "\<forall>c\<in>set (takeWhile is_space line). is_space c"
    "\<forall>c\<in>set (takeWhile is_space m). is_space c" "\<forall>c\<in>set (takeWhile is_space s3). is_space c"
    by (auto dest: set_takeWhileD)
  moreover have "s6 = rest \<or> s6 = rest @ [newline]"
    using match_tail_Some[OF t] by simp
  ultimately show ?thesis by blast
qed

lemma match_line_complete:
  assumes "line = lead @ count_str @ gap @ '':'' @ ws @ line_num @ '':'' @ rest"
    and "\<forall>c\<in>set lead. is_space c" "\<forall>c\<in>set gap. is_space c" "\<forall>c\<in>set ws. is_space c"
    and "count_str \<noteq> []" "\<forall>c\<in>set count_str. is_marker c"
    and "line_num \<noteq> []" "\<forall>c\<in>set line_num. is_digit c"
    and "newline \<notin> set rest"
  shows "match_line line = Some (count_str, line_num, rest)"
proof -
  obtain a c' where c: "count_str = a # c'" using assms(5) by (cases count_str) auto
  obtain b n' where n: "line_num = b # n'" using assms(7) by (cases line_num) auto
  have a: "\<not> is_space a" using assms(6) c marker_not_space by auto
  have b: "\<not> is_space b" using assms(8) n digit_not_space by auto
  have s1: "dropWhile is_space line = count_str @ gap @ CHR '':'' # ws @ line_num @ CHR '':'' # rest"
    using dropWhile_run[OF assms(2) a, of "c' @ gap @ '':'' @ ws @ line_num @ '':'' @ rest"]
    by (simp add: assms(1) c)
  have nm: "\<not> is_marker x" if "x \<in> set (gap @ [CHR '':''])" for x
    using that assms(3) marker_not_space colon_not_marker by auto
  have t1: "takeWhile is_marker (count_str @ gap @ CHR '':'' # ws @ line_num @ CHR '':'' # rest) =
      count_str"
    and d1: "dropWhile is_marker (count_str @ gap @ CHR '':'' # ws @ line_num @ CHR '':'' # rest) =
      gap @ CHR '':'' # ws @ line_num @ CHR '':'' # rest"
    using assms(6) nm by (cases gap; simp)+
  have g: "dropWhile is_space (gap @ CHR '':'' # ws @ line_num @ CHR '':'' # rest) =
      CHR '':'' # ws @ line_num @ CHR '':'' # rest"
    using dropWhile_run[OF assms(3)] colon_not_marker by blast
  have s4: "dropWhile is_space (ws @ line_num @ CHR '':'' # rest) = line_num @ CHR '':'' # rest"
    using dropWhile_run[OF assms(4) b, of "n' @ '':'' @ rest"] by (simp add: n)
  have t2: "takeWhile is_digit (line_num @ CHR '':'' # rest) = line_num"
    using takeWhile_run[OF assms(8)] colon_not_marker by blast
  have d2: "dropWhile is_digit (line_num @ CHR '':'' # rest) = CHR '':'' # rest"
    using dropWhile_run[OF assms(8)] colon_not_marker by blast
  show ?thesis
    unfolding match_line_def Let_def s1 t1 d1 g
    using assms(5,7) by (simp add: s4 t2 d2 match_tail_no_newline[OF assms(9)])
qed

section \<open>Facts about the execution map\<close>

lemma strip_marker: "\<forall>c\<in>set g. is_marker c \<Longrightarrow> strip g = g"
  by (rule strip_no_space) (auto dest: marker_not_space)

lemma coverage_line_eq:
  "coverage_line cov line =
     Some (case line_contribution line of None \<Rightarrow> cov | Some (n, v) \<Rightarrow> AList.update n v cov)"
proof (cases "match_coverage line")
  case None
  then show ?thesis by (simp add: coverage_line_def line_contribution_def)
next
  case (Some g)
  obtain g1 g2 where g: "g = (g1, g2)" by (cases g)
  note grp = match_coverage_groups[OF Some[unfolded g]]
  have "py_int g2 = Some (int (digits_value g2))" using grp by (simp add: py_int_digits)
  moreover have "strip g1 = g1" using grp by (simp add: strip_marker)
  ultimately show ?thesis
    using Some g by (simp add: coverage_line_def line_contribution_def split: option.splits)
qed

lemma coverage_loop_eq: "coverage_loop ls cov = Some (foldl contribute cov ls)"
  by (induction ls arbitrary: cov) (simp_all add: coverage_line_eq contribute_def)

lemma distinct_contribute: "distinct (map fst cov) \<Longrightarrow> distinct (map fst (contribute cov line))"
  by (auto simp: contribute_def distinct_update split: option.splits)

lemma distinct_foldl_contribute: "distinct (map fst cov) \<Longrightarrow> distinct (map fst (foldl contribute cov ls))"
  by (induction ls arbitrary: cov) (simp_all add: distinct_contribute)

lemma keys_contribute:
  "fst ` set (contribute cov l) = fst ` set cov \<union> {n. \<exists>v. line_contribution l = Some (n, v)}"
proof (cases "line_contribution l")
  case None
  then show ?thesis by (simp add: contribute_def)
next
  case (Some e)
  obtain k v where e: "e = (k, v)" by (cases e)
  have "fst ` set (contribute cov l) = {k} \<union> fst ` set cov"
    using Some e by (simp add: contribute_def dom_update)
  moreover have "{n. \<exists>v. line_contribution l = Some (n, v)} = {k}"
    using Some e by auto
  ultimately show ?thesis by blast
qed

lemma keys_foldl_contribute:
  "fst ` set (foldl contribute cov ls) =
     fst ` set cov \<union> {n. \<exists>l\<in>set ls. \<exists>v. line_contribution l = Some (n, v)}"
proof (induction ls arbitrary: cov)
  case Nil
  show ?case by simp
next
  case (Cons l ls)
  show ?case
    unfolding foldl_Cons Cons.IH keys_contribute by auto
qed

lemma map_of_contribute:
  "map_of (contribute cov l) n =
     (case line_contribution l of
        None \<Rightarrow> map_of cov n
      | Some (k, v) \<Rightarrow> if k = n then Some v else map_of cov n)"
  by (cases "line_contribution l") (auto simp: contribute_def update_conv')

lemma map_of_foldl_contribute_last:
  assumes "line_contribution l = Some (n, v)"
    and "\<forall>l'\<in>set after. \<forall>v'. line_contribution l' \<noteq> Some (n, v')"
  shows "map_of (foldl contribute cov (before @ l # after)) n = Some v"
proof -
  have keep: "map_of (foldl contribute c after) n = map_of c n" for c
    using assms(2)
  proof (induction after arbitrary: c)
    case Nil
    show ?case by simp
  next
    case (Cons a as)
    have "map_of (contribute c a) n = map_of c n"
      using Cons.prems by (cases "line_contribution a") (auto simp: map_of_contribute)
    with Cons show ?case by simp
  qed
  show ?thesis
    using assms(1) by (simp add: keep map_of_contribute)
qed

lemma values_foldl_contribute:
  "map_of (foldl contribute cov ls) n = Some v \<Longrightarrow>
     map_of cov n = Some v \<or> (\<exists>l\<in>set ls. line_contribution l = Some (n, v))"
proof (induction ls arbitrary: cov)
  case Nil
  then show ?case by simp
next
  case (Cons l ls)
  from Cons.IH[OF Cons.prems[simplified]]
  show ?case
    by (cases "line_contribution l") (auto simp: map_of_contribute split: if_splits)
qed

section \<open>Facts about the merger\<close>

lemma merge_eq:
  "merge m cov =
     m\<lparr>merged_covered := merged_covered m \<union> fst ` set (filter (\<lambda>(n, c). c > 0) cov),
       merged_executable := merged_executable m \<union> fst ` set cov\<rparr>"
  by (induction cov arbitrary: m) (auto simp: Let_def)

lemma merge_commute: "merge (merge m a) b = merge (merge m b) a"
  by (simp add: merge_eq Un_commute Un_left_commute Un_assoc)

lemma merge_idem: "merge (merge m a) a = merge m a"
  by (simp add: merge_eq Un_assoc)

text \<open>
  Claim C1. Folding execution maps into the merged sets is commutative, associative
  and idempotent: folding \<open>[a, b]\<close> gives the same covered and executable sets as
  folding \<open>[b, a]\<close>, folding \<open>[a, b, c]\<close> is folding \<open>a\<close> into the result of folding
  \<open>[b, c]\<close>, and folding \<open>a\<close> twice is folding it once.
\<close>

theorem fold_maps_commutative_associative_idempotent:
  "fold_maps [a, b] = fold_maps [b, a] \<and>
   fold_maps [a, b, c] = merge (fold_maps [b, c]) a \<and>
   fold_maps [a, a] = fold_maps [a]"
  unfolding fold_maps_def
  by (simp add: merge_eq Un_commute Un_left_commute Un_assoc)

text \<open>
  Claim C4. Folding is monotonic: after one more execution map is folded into any
  merged state, the executable set and the covered set each contain their former
  value.
\<close>

theorem merge_monotonic:
  "merged_executable m \<subseteq> merged_executable (merge m cov) \<and>
   merged_covered m \<subseteq> merged_covered (merge m cov)"
  by (simp add: merge_eq)

section \<open>The execution map of a snapshot\<close>

lemmas scan_defs = match_coverage_def match_line_def match_tail_def is_space_def is_marker_def
  is_digit_def newline_def Let_def

lemmas int_defs = py_int_def int_strip_def is_int_space_def strip_def int_body_def
  digits_value_def digit_val_def

text \<open>
  Claim C6, as the code has it. Parsing never raises, and the execution map has an
  entry for exactly the line numbers of the lines that match the pattern with a
  marker other than \<open>-\<close>. The count of an entry is the contribution of such a
  line, the last one with that number: 0 for \<open>#####\<close> and for a marker that
  \<open>int()\<close> rejects, the integer otherwise. A line with the marker \<open>-\<close> and a
  line outside the pattern contribute nothing.
\<close>

theorem parse_gcov_coverage_entries:
  "\<exists>cov. parse_gcov_coverage content = Some cov \<and> distinct (map fst cov) \<and>
     fst ` set cov =
       {n. \<exists>line\<in>set (split_on newline content). \<exists>v. line_contribution line = Some (n, v)} \<and>
     (\<forall>n v. map_of cov n = Some v \<longrightarrow>
        (\<exists>line\<in>set (split_on newline content). line_contribution line = Some (n, v))) \<and>
     (\<forall>before line after n v.
        split_on newline content = before @ line # after \<and>
        line_contribution line = Some (n, v) \<and>
        (\<forall>l\<in>set after. \<forall>v'. line_contribution l \<noteq> Some (n, v')) \<longrightarrow>
        map_of cov n = Some v)"
proof -
  let ?ls = "split_on newline content"
  let ?cov = "foldl contribute [] ?ls"
  have 1: "parse_gcov_coverage content = Some ?cov"
    by (simp add: parse_gcov_coverage_def coverage_loop_eq)
  have 2: "distinct (map fst ?cov)"
    by (rule distinct_foldl_contribute) simp
  have 3: "fst ` set ?cov = {n. \<exists>line\<in>set ?ls. \<exists>v. line_contribution line = Some (n, v)}"
    by (simp add: keys_foldl_contribute)
  have 4: "\<forall>n v. map_of ?cov n = Some v \<longrightarrow> (\<exists>line\<in>set ?ls. line_contribution line = Some (n, v))"
    using values_foldl_contribute[of "[]" ?ls] by auto
  have 5: "\<forall>before line after n v.
        ?ls = before @ line # after \<and> line_contribution line = Some (n, v) \<and>
        (\<forall>l\<in>set after. \<forall>v'. line_contribution l \<noteq> Some (n, v')) \<longrightarrow>
        map_of ?cov n = Some v"
    using map_of_foldl_contribute_last by metis
  show ?thesis using 1 2 3 4 5 by blast
qed

lemma lc1: "line_contribution ''###:1:a'' = Some (1, 0)"
  by (simp add: line_contribution_def scan_defs int_defs)

lemma lc2: "line_contribution ''  -:  2:b'' = None"
  by (simp add: line_contribution_def scan_defs int_defs)

lemma lc3: "line_contribution ''12: 3:c'' = Some (3, 12)"
  by (simp add: line_contribution_def scan_defs int_defs)

lemma lc4: "line_contribution ''no count'' = None"
  by (simp add: line_contribution_def scan_defs int_defs)

text \<open>A snapshot of four lines: an odd marker, a non-executable line, a count, and a
  line outside the pattern.\<close>

theorem parse_gcov_coverage_entries_witness:
  "\<exists>cov. parse_gcov_coverage (''###:1:a'' @ newline # ''  -:  2:b'' @ newline # ''12: 3:c'' @ newline # ''no count'') = Some cov \<and>
     map_of cov 3 = Some 12 \<and> fst ` set cov = {1, 3}"
proof -
  let ?x = "''###:1:a'' @ newline # ''  -:  2:b'' @ newline # ''12: 3:c'' @ newline # ''no count''"
  have sp: "split_on newline ?x = [''###:1:a'', ''  -:  2:b'', ''12: 3:c'', ''no count'']"
    by (simp add: newline_def)
  from parse_gcov_coverage_entries[of ?x] obtain cov where
    c: "parse_gcov_coverage ?x = Some cov"
    and k: "fst ` set cov = {n. \<exists>line\<in>set (split_on newline ?x). \<exists>v. line_contribution line = Some (n, v)}"
    and l: "\<forall>before line after n v.
        split_on newline ?x = before @ line # after \<and>
        line_contribution line = Some (n, v) \<and>
        (\<forall>l\<in>set after. \<forall>v'. line_contribution l \<noteq> Some (n, v')) \<longrightarrow>
        map_of cov n = Some v"
    by blast
  have "split_on newline ?x = [''###:1:a'', ''  -:  2:b''] @ ''12: 3:c'' # [''no count'']"
    unfolding sp by simp
  with l lc3 lc4 have "map_of cov 3 = Some 12"
    by (metis list.set(1) list.set(2) option.distinct(1) singletonD)
  moreover have "fst ` set cov = {1, 3}"
    unfolding k sp using lc1 lc2 lc3 lc4 by auto
  ultimately show ?thesis using c by blast
qed

text \<open>
  Against claim C6 as stated: the marker \<open>###\<close> is neither the sentinel \<open>#####\<close>
  nor an integer, and its line has an entry.
\<close>

theorem parse_gcov_coverage_entries_counterexample:
  "match_coverage ''###:1:a'' = Some (''###'', ''1'') \<and> ''###'' \<noteq> ''#####'' \<and>
   py_int ''###'' = None \<and> parse_gcov_coverage ''###:1:a'' = Some [(1, 0)]"
  by (simp add: parse_gcov_coverage_def coverage_line_def scan_defs int_defs)


text \<open>
  Claim C10, as the code has it. A line whose marker is in the marker class, is
  neither \<open>-\<close> nor \<open>#####\<close> and is rejected by \<open>int()\<close> is recorded with the
  count 0: the loop body stores 0 under its line number, and the final map holds 0
  there when no later line contributes to the same number.
\<close>

theorem unparseable_marker_counts_zero:
  assumes "match_coverage line = Some (marker, num)"
    and "marker \<noteq> ''-''" and "marker \<noteq> ''#####''" and "py_int marker = None"
  shows "\<exists>n. py_int num = Some n \<and>
           coverage_line coverage line = Some (AList.update n 0 coverage) \<and>
           (\<forall>before after.
              split_on newline content = before @ line # after \<and>
              (\<forall>l\<in>set after. \<forall>v. line_contribution l \<noteq> Some (n, v)) \<longrightarrow>
              (\<exists>cov. parse_gcov_coverage content = Some cov \<and> map_of cov n = Some 0))"
proof -
  let ?n = "int (digits_value num)"
  note grp = match_coverage_groups[OF assms(1)]
  have n: "py_int num = Some ?n" using grp by (simp add: py_int_digits)
  have lc: "line_contribution line = Some (?n, 0)"
    using assms by (simp add: line_contribution_def)
  have step: "coverage_line coverage line = Some (AList.update ?n 0 coverage)"
    by (simp add: coverage_line_eq lc)
  have "map_of (foldl contribute [] (before @ line # after)) ?n = Some 0"
    if "\<forall>l\<in>set after. \<forall>v. line_contribution l \<noteq> Some (?n, v)" for before after
    using lc that by (rule map_of_foldl_contribute_last)
  then have "\<forall>before after.
      split_on newline content = before @ line # after \<and>
      (\<forall>l\<in>set after. \<forall>v. line_contribution l \<noteq> Some (?n, v)) \<longrightarrow>
      (\<exists>cov. parse_gcov_coverage content = Some cov \<and> map_of cov ?n = Some 0)"
    by (simp add: parse_gcov_coverage_def coverage_loop_eq)
  with n step show ?thesis by blast
qed

lemma mc1: "match_coverage ''1-2:   7:x'' = Some (''1-2'', ''7'')"
  by (simp add: scan_defs)

lemma lc5: "line_contribution ''    -:    8:y'' = None"
  by (simp add: line_contribution_def scan_defs int_defs)

text \<open>The marker \<open>1-2\<close> on line 7, overwriting an earlier count.\<close>

theorem unparseable_marker_counts_zero_witness:
  "match_coverage ''1-2:   7:x'' = Some (''1-2'', ''7'') \<and> py_int ''1-2'' = None \<and>
   coverage_line [(7, 3)] ''1-2:   7:x'' = Some [(7, 0)] \<and>
   (\<exists>cov. parse_gcov_coverage (''1-2:   7:x'' @ newline # ''    -:    8:y'') = Some cov \<and>
      map_of cov 7 = Some 0)"
proof -
  let ?x = "''1-2:   7:x'' @ newline # ''    -:    8:y''"
  have p: "py_int ''1-2'' = None" by (simp add: int_defs is_space_def is_digit_def)
  have n: "py_int ''7'' = Some 7" by (simp add: int_defs is_space_def is_digit_def)
  have sp: "split_on newline ?x = [] @ ''1-2:   7:x'' # [''    -:    8:y'']"
    by (simp add: newline_def)
  from unparseable_marker_counts_zero[OF mc1 _ _ p, of "[(7, 3)]" ?x] n
  have step: "coverage_line [(7, 3)] ''1-2:   7:x'' = Some (AList.update 7 0 [(7, 3)])"
    and fin: "\<forall>before after.
              split_on newline ?x = before @ ''1-2:   7:x'' # after \<and>
              (\<forall>l\<in>set after. \<forall>v. line_contribution l \<noteq> Some (7, v)) \<longrightarrow>
              (\<exists>cov. parse_gcov_coverage ?x = Some cov \<and> map_of cov 7 = Some 0)"
    by auto
  have "\<forall>l\<in>set [''    -:    8:y'']. \<forall>v. line_contribution l \<noteq> Some (7, v)"
    using lc5 by simp
  with fin sp have "\<exists>cov. parse_gcov_coverage ?x = Some cov \<and> map_of cov 7 = Some 0"
    by blast
  with step mc1 p show ?thesis by simp
qed

text \<open>
  Against claim C10 as stated: the marker \<open>-5\<close> is in the marker class, is neither
  \<open>-\<close> nor \<open>#####\<close> nor a non-negative integer, and its line is recorded with
  the count \<open>-5\<close>, not 0.
\<close>

theorem unparseable_marker_counts_zero_counterexample:
  "match_coverage ''-5:1:a'' = Some (''-5'', ''1'') \<and> ''-5'' \<noteq> ''-'' \<and> ''-5'' \<noteq> ''#####'' \<and>
   py_int ''-5'' = Some (- 5) \<and> parse_gcov_coverage ''-5:1:a'' = Some [(1, - 5)]"
  by (simp add: parse_gcov_coverage_def coverage_line_def scan_defs int_defs)

text \<open>A marker that is a minus sign and digits is an integer to \<open>int()\<close>: the line is
  recorded with that negative count.\<close>

lemma negative_marker_count:
  assumes "match_coverage line = Some (CHR ''-'' # ds, num)"
    and "ds \<noteq> []" and "\<forall>c\<in>set ds. is_digit c"
  shows "coverage_line coverage line =
           Some (AList.update (int (digits_value num)) (- int (digits_value ds)) coverage)"
proof -
  have "line_contribution line = Some (int (digits_value num), - int (digits_value ds))"
    using assms by (simp add: line_contribution_def py_int_neg_digits)
  then show ?thesis by (simp add: coverage_line_eq)
qed

section \<open>The line records of a snapshot\<close>

lemma lines_line_eq: "lines_line lines_out line = Some (lines_out @ [line_record_of line])"
proof (cases "match_line line")
  case None
  then show ?thesis by (simp add: lines_line_def line_record_of_def)
next
  case (Some g)
  obtain c n r where g: "g = (c, n, r)" by (cases g)
  note grp = match_line_groups[OF Some[unfolded g]]
  have "py_int n = Some (int (digits_value n))" using grp by (simp add: py_int_digits)
  moreover have "strip c = c" using grp by (simp add: strip_marker)
  ultimately show ?thesis
    using Some g by (simp add: lines_line_def line_record_of_def)
qed

lemma lines_loop_eq: "lines_loop ls lines_out = Some (lines_out @ map line_record_of ls)"
  by (induction ls arbitrary: lines_out) (simp_all add: lines_line_eq)

lemma parse_gcov_lines_eq:
  "parse_gcov_lines content = Some (map line_record_of (split_on newline content))"
  by (simp add: parse_gcov_lines_def lines_loop_eq)

text \<open>
  Parsing a snapshot never raises and yields one record per piece of
  \<open>content.split("\n")\<close>, in the order of the pieces: a piece outside the pattern
  becomes the record with the marker \<open>-\<close>, the line number 0 and the whole piece
  as its text; a piece inside the pattern becomes the record of its marker, its line
  number and its tail.
\<close>

lemma parse_gcov_lines_per_piece:
  "\<exists>recs. parse_gcov_lines content = Some recs \<and>
     length recs = length (split_on newline content) \<and>
     (\<forall>i<length recs.
        (match_line (split_on newline content ! i) = None \<longrightarrow>
           recs ! i = (''-'', 0, split_on newline content ! i)) \<and>
        (\<forall>count_str line_num rest.
           match_line (split_on newline content ! i) = Some (count_str, line_num, rest) \<longrightarrow>
           recs ! i = (count_str, int (digits_value line_num), rest)))"
  by (simp add: parse_gcov_lines_eq line_record_of_def)

text \<open>
  The pieces are one more than the newlines of the text. So a text that ends in a
  newline, as a file of lines does, has an empty last piece after its last line, and
  that piece becomes a record of its own: the records are one more than the lines.
\<close>

lemma line_record_of_empty: "line_record_of [] = (''-'', 0, [])"
  by (simp add: line_record_of_def match_line_def)

lemma parse_gcov_lines_final_newline:
  "parse_gcov_lines (s @ [newline]) =
     Some (map line_record_of (split_on newline s) @ [(''-'', 0, [])])"
  by (simp add: parse_gcov_lines_eq split_on_snoc_sep line_record_of_empty)

lemma parse_gcov_lines_count:
  "\<exists>recs. parse_gcov_lines (s @ [newline]) = Some recs \<and>
     length recs = count_list (s @ [newline]) newline + 1"
  by (simp add: parse_gcov_lines_eq length_split_on)

text \<open>
  Claim C7. Parsing is to yield one record per physical line, a line outside the
  pattern as a passthrough record. The code breaks the count on every snapshot that
  ends in a newline. The snapshot below has four lines, three well-formed and one
  without a line number, each ended by a newline: the parser returns five records,
  the fifth a passthrough record of the empty text after the last newline.
\<close>

theorem parse_gcov_lines_extra_record:
  "count_list
     (''        -:    0:Source:a.c'' @ newline # ''    #####:    1:int x;'' @ newline #
      ''missing number'' @ newline # ''        3:    2:x = 1;'' @ [newline]) newline = 4 \<and>
   parse_gcov_lines
     (''        -:    0:Source:a.c'' @ newline # ''    #####:    1:int x;'' @ newline #
      ''missing number'' @ newline # ''        3:    2:x = 1;'' @ [newline]) =
     Some [(''-'', 0, ''Source:a.c''), (''#####'', 1, ''int x;''),
           (''-'', 0, ''missing number''), (''3'', 2, ''x = 1;''), (''-'', 0, [])]"
  by code_simp

section \<open>The cumulative report\<close>

lemma out_lines_loop_eq: "out_lines_loop m recs out_lines = out_lines @ map (cumulative_line m) recs"
  by (induction recs arbitrary: out_lines) auto

lemma cumulative_lines_eq: "cumulative_lines recs m = map (cumulative_line m) recs"
  by (simp add: cumulative_lines_def out_lines_loop_eq)

lemma digit_not_newline: "is_digit c \<Longrightarrow> c \<noteq> newline"
  by (auto simp: is_digit_def newline_def)

lemma py_str_no_newline: "newline \<notin> set (py_str i)"
  using nat_digits_props[of "nat i"] nat_digits_props[of "nat (- i)"]
  by (auto simp: py_str_def dest: digit_not_newline) (simp add: newline_def)

lemma cumulative_prefix_no_newline: "newline \<notin> set (cumulative_prefix c n m)"
  by (simp add: cumulative_prefix_def newline_def)

lemma cumulative_line_no_newline:
  "newline \<notin> set (snd (snd rec)) \<Longrightarrow> newline \<notin> set (cumulative_line m rec)"
  using py_str_no_newline cumulative_prefix_no_newline
  by (cases rec) (auto simp: cumulative_line_def rjust_def newline_def)

lemma line_record_of_no_newline:
  "newline \<notin> set line \<Longrightarrow> newline \<notin> set (snd (snd (line_record_of line)))"
  by (cases "match_line line") (auto simp: line_record_of_def dest: match_line_groups)

lemma split_written:
  assumes "ls \<noteq> []" "\<forall>l\<in>set ls. newline \<notin> set l"
  shows "split_on newline (join_with newline ls @ [newline]) = ls @ [[]]"
  by (simp add: split_on_snoc_sep split_join[OF assms])

text \<open>
  The report has one output line per template record, the i-th made from the i-th
  record, and so one per piece of \<open>content.split("\n")\<close>. The text written is
  these lines, each followed by a newline.
\<close>

lemma cumulative_lines_per_record:
  "\<exists>recs. parse_gcov_lines content = Some recs \<and>
     length (cumulative_lines recs m) = length (split_on newline content) \<and>
     cumulative_lines recs m = map (cumulative_line m) recs \<and>
     split_on newline (join_with newline (cumulative_lines recs m) @ [newline]) =
       cumulative_lines recs m @ [[]]"
proof -
  let ?recs = "map line_record_of (split_on newline content)"
  have "\<forall>l\<in>set (cumulative_lines ?recs m). newline \<notin> set l"
    by (auto simp: cumulative_lines_eq intro!: cumulative_line_no_newline line_record_of_no_newline
             dest: split_on_no_sep)
  moreover have "cumulative_lines ?recs m \<noteq> []"
    by (simp add: cumulative_lines_eq split_on_nonempty)
  ultimately have "split_on newline (join_with newline (cumulative_lines ?recs m) @ [newline]) =
       cumulative_lines ?recs m @ [[]]"
    by (intro split_written) auto
  then show ?thesis
    by (simp add: parse_gcov_lines_eq cumulative_lines_eq)
qed

text \<open>
  What the second loop computes. Each template record gives one output line, in the
  template's order and ending in the record's own tail. The loop looks at the
  template's own marker first: with \<open>-\<close> there, the merged sets are not consulted.
\<close>

lemma cumulative_lines_markers:
  "cumulative_lines template m =
     map (\<lambda>(count_str, line_num, rest).
            (if count_str = ''-'' then ''        -''
             else if line_num \<in> merged_covered m then ''        +''
             else if line_num \<in> merged_executable m then ''    #####''
             else ''        -'') @ '': '' @ rjust 4 CHR '' '' (py_str line_num) @ '':'' @ rest)
       template"
  by (simp add: cumulative_lines_eq cumulative_line_def cumulative_prefix_def fun_eq_iff)

lemma parse_gcov_coverage_eq: "parse_gcov_coverage content = Some (cov_of content)"
  by (simp add: parse_gcov_coverage_def coverage_loop_eq cov_of_def)

lemma parse_gcov_lines_nonempty: "map line_record_of (split_on newline content) \<noteq> []"
  by (simp add: split_on_nonempty)

lemma read_loop_eq:
  "read_loop fs ps st =
     Some \<lparr>merged = foldl merge (merged st) (map cov_of (List.map_filter fs ps)),
           template_lines =
             (if template_lines st = [] then
                (case List.map_filter fs ps of
                   [] \<Rightarrow> []
                 | content # _ \<Rightarrow> map line_record_of (split_on newline content))
              else template_lines st)\<rparr>"
proof (induction ps arbitrary: st)
  case Nil
  show ?case by simp
next
  case (Cons p ps)
  show ?case
  proof (cases "fs p")
    case None
    then show ?thesis by (simp add: Cons.IH)
  next
    case (Some content)
    then show ?thesis
      by (simp add: Cons.IH parse_gcov_coverage_eq parse_gcov_lines_eq
            split_on_nonempty Let_def)
  qed
qed

lemma write_cumulative_gcov_eq:
  "write_cumulative_gcov fs gcov_paths =
     (case List.map_filter fs gcov_paths of
        [] \<Rightarrow> Some ReturnedFalse
      | content # others \<Rightarrow>
          Some (Written (join_with newline
                  (cumulative_lines (map line_record_of (split_on newline content))
                     (fold_maps (map cov_of (content # others)))) @ [newline])))"
  by (cases gcov_paths)
     (auto simp: write_cumulative_gcov_def read_loop_eq fold_maps_def
        split_on_nonempty split: list.splits option.splits)


text \<open>
  The text written has one more newline than the template: one per piece of the
  template, and the template has one piece more than it has newlines.
\<close>

lemma write_cumulative_gcov_newlines:
  assumes "List.map_filter fs gcov_paths = content # others"
  shows "\<exists>text. write_cumulative_gcov fs gcov_paths = Some (Written text) \<and>
           count_list text newline = count_list content newline + 1"
proof -
  let ?out = "cumulative_lines (map line_record_of (split_on newline content))
                (fold_maps (map cov_of (content # others)))"
  have "\<forall>l\<in>set ?out. newline \<notin> set l"
    by (auto simp: cumulative_lines_eq intro!: cumulative_line_no_newline line_record_of_no_newline
             dest: split_on_no_sep)
  moreover have "?out \<noteq> []"
    by (simp add: cumulative_lines_eq split_on_nonempty)
  ultimately have "split_on newline (join_with newline ?out @ [newline]) = ?out @ [[]]"
    by (intro split_written) auto
  then have "length (split_on newline (join_with newline ?out @ [newline])) =
      length (split_on newline content) + 1"
    by (simp add: cumulative_lines_eq)
  then have "count_list (join_with newline ?out @ [newline]) newline =
      count_list content newline + 1"
    unfolding length_split_on by simp
  then show ?thesis
    using assms by (simp add: write_cumulative_gcov_eq)
qed

text \<open>
  Claim C3. The report built from a template of N lines is to have exactly N lines,
  none added. The code breaks it on every template that ends in a newline. The
  template below has one line; the report written has two, the second a passthrough
  line for the empty text after the template's last newline.
\<close>

theorem cumulative_report_extra_line:
  "count_list (''        1:    1:x'' @ [newline]) newline = 1 \<and>
   write_cumulative_gcov (map_of [(0::nat, ''        1:    1:x'' @ [newline])]) [0] =
     Some (Written (''        +:    1:x'' @ newline # ''        -:    0:'' @ [newline])) \<and>
   count_list (''        +:    1:x'' @ newline # ''        -:    0:'' @ [newline]) newline = 2"
  by code_simp

text \<open>
  Claim C2. A line of the report is to be marked from the merged sets alone: covered
  when any snapshot covers its number. The code breaks it where the template marks
  the line \<open>-\<close>. Below the first snapshot marks line 1 as \<open>-\<close> and the second
  covers line 1, so line 1 is in both merged sets: the report marks it \<open>-\<close>. With
  the two snapshots in the other order the merged sets are the same and the report
  marks it \<open>+\<close>.
\<close>

theorem cumulative_marker_failing_input:
  "parse_gcov_lines ''        -:    1:a'' = Some [(''-'', 1, ''a'')] \<and>
   parse_gcov_coverage ''        7:    1:a'' = Some [(1, 7)] \<and>
   1 \<in> merged_covered (fold_maps [[], [(1, 7)]]) \<and>
   1 \<in> merged_executable (fold_maps [[], [(1, 7)]]) \<and>
   cumulative_lines [(''-'', 1, ''a'')] (fold_maps [[], [(1, 7)]]) = [''        -:    1:a''] \<and>
   write_cumulative_gcov (map_of [(0::nat, ''        -:    1:a''), (1, ''        7:    1:a'')]) [0, 1]
     = Some (Written (''        -:    1:a'' @ [newline])) \<and>
   write_cumulative_gcov (map_of [(0::nat, ''        -:    1:a''), (1, ''        7:    1:a'')]) [1, 0]
     = Some (Written (''        +:    1:a'' @ [newline]))"
  by code_simp

section \<open>The exporters\<close>

lemma update_new: "k \<notin> fst ` set al \<Longrightarrow> AList.update k v al = al @ [(k, v)]"
  by (induction al) auto

lemma foldl_read_entry_items:
  "distinct (map fst (acc @ items)) \<Longrightarrow> foldl read_entry acc (map Some items) = acc @ items"
proof (induction items arbitrary: acc)
  case Nil
  show ?case by simp
next
  case (Cons e items)
  obtain k v where e: "e = (k, v)" by (cases e)
  have "k \<notin> fst ` set acc" using Cons.prems e by auto
  then have "read_entry acc (Some e) = acc @ [e]"
    by (simp add: read_entry_def e update_new)
  moreover have "distinct (map fst ((acc @ [e]) @ items))" using Cons.prems by simp
  ultimately show ?case using Cons.IH[of "acc @ [e]"] by simp
qed

lemma py_str_chars: "c \<in> set (py_str i) \<Longrightarrow> is_digit c \<or> c = CHR ''-''"
  using nat_digits_props[of "nat i"] nat_digits_props[of "nat (- i)"]
  by (auto simp: py_str_def split: if_splits)

lemma py_str_no_comma: "CHR '','' \<notin> set (py_str i)"
  using py_str_chars[of "CHR '',''" i] by (auto simp: is_digit_def)

lemma split_at_first_eq:
  "ch \<notin> set a \<Longrightarrow> split_at_first ch (a @ ch # b) = Some (a, b)"
proof -
  assume a: "ch \<notin> set a"
  have "takeWhile (\<lambda>c. c \<noteq> ch) (a @ ch # b) = a"
    and "dropWhile (\<lambda>c. c \<noteq> ch) (a @ ch # b) = ch # b"
    using a by (induction a) auto
  then show ?thesis by (simp add: split_at_first_def)
qed

lemma read_da_record_da:
  "read_da_record (''DA:'' @ py_str ln @ '','' @ py_str c) = Some (ln, c)"
  using split_at_first_eq[OF py_str_no_comma, of ln "py_str c"]
  by (simp add: read_da_record_def startswith_def py_int_py_str)

lemma read_da_record_sf: "read_da_record (''SF:'' @ path) = None"
  by (simp add: read_da_record_def startswith_def)

lemma read_da_record_end: "read_da_record ''end_of_record'' = None"
  by (simp add: read_da_record_def startswith_def)

lemma those_map_Some:
  "\<forall>k\<in>set ks. f k = Some (g k) \<Longrightarrow> those (map f ks) = Some (map g ks)"
  by (induction ks) auto


lemma set_strip: "set (strip s) \<subseteq> set s"
  unfolding strip_def
  by (metis (no_types, lifting) set_dropWhileD set_rev subsetI)

lemma source_path_loop_no_newline:
  "source_path_loop ls = Some p \<Longrightarrow> \<forall>l\<in>set ls. newline \<notin> set l \<Longrightarrow> newline \<notin> set p"
proof (induction ls)
  case Nil
  then show ?case by simp
next
  case (Cons l ls)
  show ?case
  proof (cases "contains l '':Source:''")
    case False
    with Cons show ?thesis by simp
  next
    case True
    show ?thesis
    proof (cases "find l ''Source:''")
      case None
      with True Cons show ?thesis by simp
    next
      case (Some i)
      with True Cons.prems(1) have "p = strip (drop (i + 7) l)" by simp
      moreover have "newline \<notin> set l" using Cons.prems(2) by simp
      ultimately show ?thesis
        using set_strip[of "drop (i + 7) l"] set_drop_subset[of "i + 7" l] by blast
    qed
  qed
qed

lemma parse_gcov_source_path_no_newline:
  "parse_gcov_source_path content = Some p \<Longrightarrow> newline \<notin> set p"
  unfolding parse_gcov_source_path_def
  by (erule source_path_loop_no_newline) (auto dest: split_on_no_sep)

lemma str_or_no_newline:
  "(\<forall>p. sp = Some p \<longrightarrow> newline \<notin> set p) \<Longrightarrow> newline \<notin> set d \<Longrightarrow> newline \<notin> set (str_or sp d)"
  by (cases sp) auto

text \<open>The entries of a dictionary in ascending order of their keys.\<close>

lemma sorted_items:
  assumes "distinct (map fst cov)"
  defines "items \<equiv> map (\<lambda>k. (k, the (map_of cov k))) (sort (map fst cov))"
  shows "set items = set cov" and "map fst items = sort (map fst cov)"
    and "\<forall>k\<in>set (sort (map fst cov)). map_of cov k = Some (the (map_of cov k))"
proof -
  show 3: "\<forall>k\<in>set (sort (map fst cov)). map_of cov k = Some (the (map_of cov k))"
    by (auto simp: weak_map_of_SomeI assms(1))
  show "map fst items = sort (map fst cov)"
    by (simp add: items_def comp_def)
  show "set items = set cov"
  proof
    show "set items \<subseteq> set cov"
      using 3 by (auto simp: items_def dest!: map_of_SomeD)
    show "set cov \<subseteq> set items"
    proof
      fix e assume e: "e \<in> set cov"
      obtain k v where kv: "e = (k, v)" by (cases e)
      have "map_of cov k = Some v" using e kv assms(1) by simp
      moreover have "k \<in> set (sort (map fst cov))" using e kv by force
      ultimately show "e \<in> set items" by (force simp: items_def kv)
    qed
  qed
qed

lemma da_lines_no_newline:
  "newline \<notin> set (''DA:'' @ py_str ln @ '','' @ py_str c)"
  using py_str_no_newline by (simp add: newline_def)

lemma read_gcovr_line_entry:
  "read_gcovr_line (JDict [(''line_number'', JInt ln), (''function_name'', JStr []),
                           (''count'', JInt c), (''branches'', JList [])]) = Some (ln, c)"
  by (simp add: read_gcovr_line_def)

lemma foldl_read_entry_framed:
  "distinct (map fst items) \<Longrightarrow>
   foldl read_entry [] (None # map Some items @ [None]) = items"
  using foldl_read_entry_items[of "[]" items] by (simp add: read_entry_def)

lemma read_gcovr_json_doc:
  assumes "distinct (map fst items)"
  shows "read_gcovr_json
          (JDict [(''gcovr/format_version'', v),
                  (''files'', JList [JDict [(''file'', f),
                     (''lines'', JList (map (\<lambda>(ln, c). JDict [(''line_number'', JInt ln),
                        (''function_name'', JStr []), (''count'', JInt c),
                        (''branches'', JList [])]) items)),
                     (''functions'', fs)]])]) = Some items"
proof -
  have a: "map read_gcovr_line (map (\<lambda>(ln, c). JDict [(''line_number'', JInt ln),
                        (''function_name'', JStr []), (''count'', JInt c),
                        (''branches'', JList [])]) items) = map Some items"
    by (induction items) (auto simp: read_gcovr_line_entry)
  have b: "foldl read_entry [] (map Some items) = items"
    using foldl_read_entry_items[of "[]" items] assms by simp
  show ?thesis
    by (simp add: read_gcovr_json_def a b del: map_map)
qed

text \<open>
  Claim C5. Both exporters are round-trip stable. For every snapshot, and for a
  source path without a newline (the path read from a snapshot never has one), the
  line-trace artifact is the \<open>SF:\<close> header, one \<open>DA:line,count\<close> record per
  entry of the execution map in ascending order of the line numbers, and
  \<open>end_of_record\<close>; reading it back gives exactly those entries, and so does reading
  the structured trace. The entries read back are the snapshot's execution map.
\<close>

theorem exporters_round_trip:
  assumes "\<forall>p. source_path = Some p \<longrightarrow> newline \<notin> set p"
  shows "\<exists>cov items info j.
           parse_gcov_coverage content = Some cov \<and>
           set items = set cov \<and> sorted (map fst items) \<and> distinct (map fst items) \<and>
           map_of items = map_of cov \<and>
           gcov_to_lcov_info content source_path = Some info \<and>
           split_on newline info =
             (''SF:'' @ str_or source_path (str_or (parse_gcov_source_path content) ''unknown.c'')) #
             map (\<lambda>(ln, c). ''DA:'' @ py_str ln @ '','' @ py_str c) items @ [''end_of_record''] \<and>
           read_lcov_info info = items \<and>
           gcov_to_gcovr_json content source_path workspace_root = Some j \<and>
           read_gcovr_json j = Some items"
proof -
  let ?cov = "cov_of content"
  let ?ks = "sort (map fst ?cov)"
  let ?items = "map (\<lambda>k. (k, the (map_of ?cov k))) ?ks"
  let ?path = "str_or source_path (str_or (parse_gcov_source_path content) ''unknown.c'')"
  let ?da = "\<lambda>(ln, c). ''DA:'' @ py_str ln @ '','' @ py_str c"
  let ?je = "\<lambda>(ln, c). JDict [(''line_number'', JInt ln), (''function_name'', JStr []),
                               (''count'', JInt c), (''branches'', JList [])]"
  have dist: "distinct (map fst ?cov)"
    unfolding cov_of_def by (rule distinct_foldl_contribute) simp
  note it = sorted_items[OF dist]
  have keys: "map fst ?items = ?ks" by (rule it(2))
  have d_items: "distinct (map fst ?items)" unfolding keys using dist by simp
  have s_items: "sorted (map fst ?items)" unfolding keys by simp
  have m_items: "map_of ?items = map_of ?cov"
    using map_of_inject_set[OF d_items dist] it(1) by simp
  have das: "those (map (da_line ?cov) ?ks) = Some (map ?da ?items)"
  proof -
    have "those (map (da_line ?cov) ?ks) =
            Some (map (\<lambda>k. ''DA:'' @ py_str k @ '','' @ py_str (the (map_of ?cov k))) ?ks)"
      by (rule those_map_Some) (use it(3) in \<open>auto simp: da_line_def\<close>)
    then show ?thesis by (simp add: comp_def)
  qed
  have jes: "those (map (line_entry ?cov) ?ks) = Some (map ?je ?items)"
  proof -
    have "those (map (line_entry ?cov) ?ks) =
            Some (map (\<lambda>k. JDict [(''line_number'', JInt k), (''function_name'', JStr []),
                     (''count'', JInt (the (map_of ?cov k))), (''branches'', JList [])]) ?ks)"
      by (rule those_map_Some) (use it(3) in \<open>auto simp: line_entry_def\<close>)
    then show ?thesis by (simp add: comp_def)
  qed
  let ?lines = "(''SF:'' @ ?path) # map ?da ?items @ [''end_of_record'']"
  have info: "gcov_to_lcov_info content source_path = Some (join_with newline ?lines)"
    by (simp add: gcov_to_lcov_info_def parse_gcov_coverage_eq das)
  have "newline \<notin> set ?path"
  proof (rule str_or_no_newline[OF assms])
    show "newline \<notin> set (str_or (parse_gcov_source_path content) ''unknown.c'')"
      by (rule str_or_no_newline)
         (auto dest: parse_gcov_source_path_no_newline simp: newline_def)
  qed
  then have "\<forall>l\<in>set ?lines. newline \<notin> set l"
    using da_lines_no_newline by (auto simp: newline_def)
  then have split: "split_on newline (join_with newline ?lines) = ?lines"
    by (intro split_join) auto
  have rd: "map read_da_record ?lines = None # map Some ?items @ [None]"
    using read_da_record_sf[of ?path] read_da_record_end
    by (simp add: read_da_record_da comp_def del: append.simps)
  have read: "read_lcov_info (join_with newline ?lines) = ?items"
    unfolding read_lcov_info_def split rd by (rule foldl_read_entry_framed[OF d_items])
  obtain fname where
    j: "gcov_to_gcovr_json content source_path workspace_root =
          Some (JDict [(''gcovr/format_version'', JStr ''0.14''),
                       (''files'', JList [JDict [(''file'', JStr fname),
                                                 (''lines'', JList (map ?je ?items)),
                                                 (''functions'', JList [])]])])"
    by (simp add: gcov_to_gcovr_json_def parse_gcov_coverage_eq jes Let_def)
  note readj = read_gcovr_json_doc[OF d_items, of "JStr ''0.14''" "JStr fname" "JList []"]
  show ?thesis
    using parse_gcov_coverage_eq[of content] it(1) s_items d_items m_items info split read j readj
    by blast
qed


text \<open>A snapshot of \<open>cat.c\<close> with one covered and one uncovered line.\<close>

theorem exporters_round_trip_witness:
  "newline \<notin> set ''../src/cat.c'' \<and>
   gcov_to_lcov_info
     (''        -:    0:Source:../src/cat.c'' @ newline # ''        3:    1:int x;'' @ newline #
      ''    #####:    2:return;'')
     (Some ''../src/cat.c'') =
     Some (''SF:../src/cat.c'' @ newline # ''DA:1,3'' @ newline # ''DA:2,0'' @ newline #
           ''end_of_record'') \<and>
   (\<exists>cov info j.
      parse_gcov_coverage
        (''        -:    0:Source:../src/cat.c'' @ newline # ''        3:    1:int x;'' @ newline #
         ''    #####:    2:return;'') = Some cov \<and>
      gcov_to_lcov_info
        (''        -:    0:Source:../src/cat.c'' @ newline # ''        3:    1:int x;'' @ newline #
         ''    #####:    2:return;'')
        (Some ''../src/cat.c'') = Some info \<and>
      map_of (read_lcov_info info) = map_of cov \<and>
      gcov_to_gcovr_json
        (''        -:    0:Source:../src/cat.c'' @ newline # ''        3:    1:int x;'' @ newline #
         ''    #####:    2:return;'')
        (Some ''../src/cat.c'') None = Some j \<and>
      map_option map_of (read_gcovr_json j) = Some (map_of cov))"
proof -
  let ?x = "''        -:    0:Source:../src/cat.c'' @ newline # ''        3:    1:int x;'' @ newline #
      ''    #####:    2:return;''"
  have h: "\<forall>p. Some ''../src/cat.c'' = Some p \<longrightarrow> newline \<notin> set p"
    by (simp add: newline_def)
  have e: "gcov_to_lcov_info ?x (Some ''../src/cat.c'') =
     Some (''SF:../src/cat.c'' @ newline # ''DA:1,3'' @ newline # ''DA:2,0'' @ newline #
           ''end_of_record'')"
    by code_simp
  from exporters_round_trip[OF h, of ?x None] obtain cov items info j where
    "parse_gcov_coverage ?x = Some cov" "map_of items = map_of cov"
    "gcov_to_lcov_info ?x (Some ''../src/cat.c'') = Some info" "read_lcov_info info = items"
    "gcov_to_gcovr_json ?x (Some ''../src/cat.c'') None = Some j" "read_gcovr_json j = Some items"
    by blast
  then have "\<exists>cov info j.
      parse_gcov_coverage ?x = Some cov \<and>
      gcov_to_lcov_info ?x (Some ''../src/cat.c'') = Some info \<and>
      map_of (read_lcov_info info) = map_of cov \<and>
      gcov_to_gcovr_json ?x (Some ''../src/cat.c'') None = Some j \<and>
      map_option map_of (read_gcovr_json j) = Some (map_of cov)"
    by auto
  moreover have "newline \<notin> set ''../src/cat.c''" by (simp add: newline_def)
  ultimately show ?thesis using e by blast
qed

section \<open>The missing source path\<close>

lemma startswith_iff: "startswith s p \<longleftrightarrow> (\<exists>b. s = p @ b)"
  unfolding startswith_def
  by (metis append_eq_conv_conj append_take_drop_id)

lemma find_from_None_iff: "find_from sub s i = None \<longleftrightarrow> (\<forall>a b. s \<noteq> a @ sub @ b)"
proof (induction s arbitrary: i)
  case Nil
  show ?case by auto
next
  case (Cons c cs)
  show ?case
  proof (cases "startswith (c # cs) sub")
    case True
    then obtain b where "c # cs = [] @ sub @ b" by (auto simp: startswith_iff)
    with True show ?thesis by (metis find_from.simps(2) option.distinct(1))
  next
    case False
    have "(\<forall>a b. c # cs \<noteq> a @ sub @ b) \<longleftrightarrow> (\<forall>a b. cs \<noteq> a @ sub @ b)"
    proof
      assume h: "\<forall>a b. c # cs \<noteq> a @ sub @ b"
      show "\<forall>a b. cs \<noteq> a @ sub @ b"
      proof (intro allI notI)
        fix a b assume "cs = a @ sub @ b"
        then have "c # cs = (c # a) @ sub @ b" by simp
        with h show False by blast
      qed
    next
      assume h: "\<forall>a b. cs \<noteq> a @ sub @ b"
      show "\<forall>a b. c # cs \<noteq> a @ sub @ b"
      proof (intro allI notI)
        fix a b assume e: "c # cs = a @ sub @ b"
        show False
        proof (cases a)
          case Nil
          with e False show False by (auto simp: startswith_iff)
        next
          case (Cons x a')
          with e have "cs = a' @ sub @ b" by simp
          with h show False by blast
        qed
      qed
    qed
    with False Cons.IH[of "Suc i"] show ?thesis by simp
  qed
qed

lemma contains_iff: "contains s sub \<longleftrightarrow> (\<exists>a b. s = a @ sub @ b)"
  using find_from_None_iff[of sub s 0] by (auto simp: contains_def find_def)

lemma contains_source_marker:
  assumes "contains line '':Source:''"
  shows "\<exists>idx. find line ''Source:'' = Some idx"
proof -
  from assms obtain a b where "line = a @ '':Source:'' @ b" by (auto simp: contains_iff)
  then have "line = (a @ '':'') @ ''Source:'' @ b" by simp
  then have "contains line ''Source:''" unfolding contains_iff by blast
  then show ?thesis by (auto simp: contains_def)
qed

lemma source_path_loop_None_iff:
  "source_path_loop ls = None \<longleftrightarrow> (\<forall>l\<in>set ls. \<not> contains l '':Source:'')"
proof (induction ls)
  case Nil
  show ?case by simp
next
  case (Cons l ls)
  show ?case
  proof (cases "contains l '':Source:''")
    case True
    with contains_source_marker[OF True] show ?thesis by auto
  next
    case False
    with Cons show ?thesis by simp
  qed
qed

lemma parse_gcov_source_path_None_iff:
  "parse_gcov_source_path content = None \<longleftrightarrow>
     (\<forall>l\<in>set (split_on newline content). \<not> contains l '':Source:'')"
  by (simp add: parse_gcov_source_path_def source_path_loop_None_iff)

lemma unknown_key: "strip (replace_char backslash CHR ''/'' ''unknown.c'') = ''unknown.c''"
  by code_simp

lemma those_defined: "\<forall>k\<in>set ks. f k \<noteq> None \<Longrightarrow> those (map f ks) \<noteq> None"
  by (induction ks) auto

lemma gcov_to_lcov_info_shape:
  "\<exists>das. gcov_to_lcov_info content source_path =
     Some (join_with newline
       ((''SF:'' @ str_or source_path (str_or (parse_gcov_source_path content) ''unknown.c'')) #
        das @ [''end_of_record'']))"
proof -
  have "those (map (da_line (cov_of content)) (sort (map fst (cov_of content)))) \<noteq> None"
    by (rule those_defined) (auto simp: da_line_def map_of_eq_None_iff)
  then show ?thesis
    by (auto simp: gcov_to_lcov_info_def parse_gcov_coverage_eq)
qed

lemma gcov_to_gcovr_json_shape:
  "\<exists>line_entries. gcov_to_gcovr_json content source_path workspace_root =
     Some (JDict [(''gcovr/format_version'', JStr ''0.14''),
                  (''files'', JList [JDict [(''file'', JStr
                      (case workspace_root of
                         Some resolve \<Rightarrow> normalize_gcovr_file_path
                           (str_or source_path (str_or (parse_gcov_source_path content) ''unknown.c''))
                           resolve
                       | None \<Rightarrow> str_or source_path
                                  (str_or (parse_gcov_source_path content) ''unknown.c''))),
                    (''lines'', JList line_entries), (''functions'', JList [])]])])"
proof -
  have "those (map (line_entry (cov_of content)) (sort (map fst (cov_of content)))) \<noteq> None"
    by (rule those_defined) (auto simp: line_entry_def map_of_eq_None_iff)
  then show ?thesis
    by (auto simp: gcov_to_gcovr_json_def parse_gcov_coverage_eq Let_def)
qed

text \<open>
  Claim C8, as the code has it. For a snapshot without a \<open>:Source:\<close> line the
  resolver returns \<open>None\<close> rather than failing, and its users fall back to the
  literal \<open>unknown.c\<close>: grouping files the snapshot under the key \<open>unknown.c\<close>, both
  exporters name the file \<open>unknown.c\<close>, and the directory name made from that key is
  \<open>unknown\<close>.
\<close>

theorem missing_source_falls_back:
  assumes "\<forall>line\<in>set (split_on newline content). \<not> contains line '':Source:''"
    and "fs p = Some content"
  shows "parse_gcov_source_path content = None \<and>
         group_gcov_paths_by_source fs [p] = [(''unknown.c'', [p])] \<and>
         map_of (group_step fs groups p) ''unknown.c'' =
           Some (case map_of groups ''unknown.c'' of None \<Rightarrow> [p] | Some ps \<Rightarrow> ps @ [p]) \<and>
         source_to_dirname ''unknown.c'' = ''unknown'' \<and>
         (\<exists>das. gcov_to_lcov_info content None =
            Some (join_with newline (''SF:unknown.c'' # das @ [''end_of_record'']))) \<and>
         (\<exists>line_entries. gcov_to_gcovr_json content None None =
            Some (JDict [(''gcovr/format_version'', JStr ''0.14''),
                         (''files'', JList [JDict [(''file'', JStr ''unknown.c''),
                            (''lines'', JList line_entries), (''functions'', JList [])]])]))"
proof -
  have n: "parse_gcov_source_path content = None"
    using assms(1) by (simp add: parse_gcov_source_path_None_iff)
  have g: "group_step fs gs p =
      (case map_of gs ''unknown.c'' of
         None \<Rightarrow> AList.update ''unknown.c'' [p] gs
       | Some ps \<Rightarrow> AList.update ''unknown.c'' (ps @ [p]) gs)" for gs
    using assms(2) n
    by (cases "map_of gs ''unknown.c''") (simp_all add: group_step_def unknown_key Let_def)
  have 1: "group_gcov_paths_by_source fs [p] = [(''unknown.c'', [p])]"
    by (simp add: group_gcov_paths_by_source_def g)
  have 2: "map_of (group_step fs groups p) ''unknown.c'' =
           Some (case map_of groups ''unknown.c'' of None \<Rightarrow> [p] | Some ps \<Rightarrow> ps @ [p])"
    unfolding g by (cases "map_of groups ''unknown.c''") (simp_all add: update_conv')
  have 3: "source_to_dirname ''unknown.c'' = ''unknown''"
    by (simp add: source_to_dirname_def)
  show ?thesis
    using n 1 2 3 gcov_to_lcov_info_shape[of content None]
      gcov_to_gcovr_json_shape[of content None None]
    by simp
qed

text \<open>A snapshot of one line and no metadata line.\<close>

theorem missing_source_falls_back_witness:
  "parse_gcov_source_path ''        1:    1:x'' = None \<and>
   group_gcov_paths_by_source (map_of [(0::nat, ''        1:    1:x'')]) [0] =
     [(''unknown.c'', [0])] \<and>
   source_to_dirname ''unknown.c'' = ''unknown''"
proof -
  have a: "\<forall>line\<in>set (split_on newline ''        1:    1:x''). \<not> contains line '':Source:''"
    by code_simp
  have b: "map_of [(0::nat, ''        1:    1:x'')] 0 = Some ''        1:    1:x''"
    by simp
  from missing_source_falls_back[where fs = "map_of [(0::nat, ''        1:    1:x'')]" and p = 0, OF a b]
  show ?thesis by blast
qed

text \<open>
  Against claim C8 as stated: the key under which grouping files a snapshot without
  a source path is \<open>unknown.c\<close>, not \<open>unknown\<close>.
\<close>

theorem missing_source_falls_back_counterexample:
  "parse_gcov_source_path ''        1:    1:x'' = None \<and>
   map fst (group_gcov_paths_by_source (map_of [(0::nat, ''        1:    1:x'')]) [0]) =
     [''unknown.c''] \<and>
   ''unknown.c'' \<noteq> ''unknown''"
  by code_simp

text \<open>The structured exporter names the file \<open>unknown.c\<close> with a workspace root
  too.\<close>

lemma missing_source_json_any_root:
  assumes "parse_gcov_source_path content = None"
  shows "\<exists>line_entries. gcov_to_gcovr_json content None workspace_root =
            Some (JDict [(''gcovr/format_version'', JStr ''0.14''),
                         (''files'', JList [JDict [(''file'', JStr ''unknown.c''),
                            (''lines'', JList line_entries), (''functions'', JList [])]])])"
  using gcov_to_gcovr_json_shape[of content None workspace_root] assms
  by (cases workspace_root) (auto simp: normalize_gcovr_file_path_def)

section \<open>Converting a directory\<close>

lemma skip_snapshot_iff:
  "skip_snapshot True sp \<longleftrightarrow> \<not> (case sp of None \<Rightarrow> False | Some s \<Rightarrow> endswith s ''.c'')"
  by (cases sp) (auto simp: skip_snapshot_def endswith_def)

lemma convert_loop_eq:
  fixes base_name workspace_root
  defines "retained \<equiv> (\<lambda>content. case parse_gcov_source_path content of
                                      None \<Rightarrow> False | Some s \<Rightarrow> endswith s ''.c'')"
  shows "\<exists>infos jsons.
      those (map (\<lambda>c. gcov_to_lcov_info c (parse_gcov_source_path c)) (filter retained cs)) =
        Some infos \<and>
      those (map (\<lambda>c. gcov_to_gcovr_json c (parse_gcov_source_path c) workspace_root)
               (filter retained cs)) = Some jsons \<and>
      convert_loop base_name workspace_root True cs st =
        Some \<lparr>idx = idx st + length (filter retained cs),
              info_files = info_files st @
                zip (map (\<lambda>i. tracefile_name base_name i ''.info'')
                       [idx st..<idx st + length (filter retained cs)]) infos,
              json_files = json_files st @
                zip (map (\<lambda>i. tracefile_name base_name i ''.json'')
                       [idx st..<idx st + length (filter retained cs)]) jsons\<rparr>"
proof (induction cs arbitrary: st)
  case Nil
  show ?case by simp
next
  case (Cons c cs)
  show ?case
  proof (cases "retained c")
    case False
    then have "skip_snapshot True (parse_gcov_source_path c)"
      by (simp add: skip_snapshot_iff retained_def)
    with False Cons.IH[of st] show ?thesis by (simp add: Let_def)
  next
    case True
    then have ns: "\<not> skip_snapshot True (parse_gcov_source_path c)"
      by (simp add: skip_snapshot_iff retained_def)
    obtain info where info: "gcov_to_lcov_info c (parse_gcov_source_path c) = Some info"
      using gcov_to_lcov_info_shape by blast
    obtain j where j: "gcov_to_gcovr_json c (parse_gcov_source_path c) workspace_root = Some j"
      using gcov_to_gcovr_json_shape by blast
    let ?st = "\<lparr>idx = idx st + 1,
                info_files = info_files st @ [(tracefile_name base_name (idx st) ''.info'', info)],
                json_files = json_files st @ [(tracefile_name base_name (idx st) ''.json'', j)]\<rparr>"
    from Cons.IH[of ?st] obtain infos jsons where
      i: "those (map (\<lambda>c. gcov_to_lcov_info c (parse_gcov_source_path c)) (filter retained cs)) =
            Some infos"
      and js: "those (map (\<lambda>c. gcov_to_gcovr_json c (parse_gcov_source_path c) workspace_root)
               (filter retained cs)) = Some jsons"
      and l: "convert_loop base_name workspace_root True cs ?st =
        Some \<lparr>idx = idx ?st + length (filter retained cs),
              info_files = info_files ?st @
                zip (map (\<lambda>i. tracefile_name base_name i ''.info'')
                       [idx ?st..<idx ?st + length (filter retained cs)]) infos,
              json_files = json_files ?st @
                zip (map (\<lambda>i. tracefile_name base_name i ''.json'')
                       [idx ?st..<idx ?st + length (filter retained cs)]) jsons\<rparr>"
      by blast
    have up: "[i..<Suc (i + n)] = i # [Suc i..<Suc (i + n)]" for i n :: nat
      by (simp add: upt_conv_Cons)
    have "convert_loop base_name workspace_root True (c # cs) st =
        Some \<lparr>idx = idx st + length (filter retained (c # cs)),
              info_files = info_files st @
                zip (map (\<lambda>i. tracefile_name base_name i ''.info'')
                       [idx st..<idx st + length (filter retained (c # cs))]) (info # infos),
              json_files = json_files st @
                zip (map (\<lambda>i. tracefile_name base_name i ''.json'')
                       [idx st..<idx st + length (filter retained (c # cs))]) (j # jsons)\<rparr>"
      using True ns info j l by (simp add: Let_def up del: upt_Suc)
    moreover have "those (map (\<lambda>c. gcov_to_lcov_info c (parse_gcov_source_path c))
                      (filter retained (c # cs))) = Some (info # infos)"
      using True info i by simp
    moreover have "those (map (\<lambda>c. gcov_to_gcovr_json c (parse_gcov_source_path c) workspace_root)
                      (filter retained (c # cs))) = Some (j # jsons)"
      using True j js by simp
    ultimately show ?thesis by blast
  qed
qed

text \<open>
  Claim C9. With \<open>only_c_sources = True\<close> the conversion of a directory writes
  artifacts for exactly the snapshots whose source path is present and ends in
  \<open>.c\<close>, in their order: the other snapshots get neither a line-trace nor a
  structured-trace file and do not advance the index, so the files of the k retained
  snapshots are numbered 0 to k - 1 without gaps.
\<close>

theorem convert_skips_non_c_sources:
  "\<exists>st infos jsons.
     convert_dir_to_tracefiles gcov_files base_name workspace_root True = Some st \<and>
     those (map (\<lambda>c. gcov_to_lcov_info c (parse_gcov_source_path c))
        (filter (\<lambda>content. case parse_gcov_source_path content of
                               None \<Rightarrow> False | Some s \<Rightarrow> endswith s ''.c'') gcov_files)) =
       Some infos \<and>
     those (map (\<lambda>c. gcov_to_gcovr_json c (parse_gcov_source_path c) workspace_root)
        (filter (\<lambda>content. case parse_gcov_source_path content of
                               None \<Rightarrow> False | Some s \<Rightarrow> endswith s ''.c'') gcov_files)) =
       Some jsons \<and>
     idx st = length infos \<and> length jsons = length infos \<and>
     info_files st =
       zip (map (\<lambda>i. tracefile_name base_name i ''.info'') [0..<length infos]) infos \<and>
     json_files st =
       zip (map (\<lambda>i. tracefile_name base_name i ''.json'') [0..<length infos]) jsons"
proof -
  let ?kept = "filter (\<lambda>content. case parse_gcov_source_path content of
                               None \<Rightarrow> False | Some s \<Rightarrow> endswith s ''.c'') gcov_files"
  from convert_loop_eq[where workspace_root = workspace_root and cs = gcov_files
         and base_name = base_name and st = "\<lparr>idx = 0, info_files = [], json_files = []\<rparr>"]
  obtain infos jsons where
    i: "those (map (\<lambda>c. gcov_to_lcov_info c (parse_gcov_source_path c)) ?kept) = Some infos"
    and j: "those (map (\<lambda>c. gcov_to_gcovr_json c (parse_gcov_source_path c) workspace_root) ?kept)
              = Some jsons"
    and l: "convert_dir_to_tracefiles gcov_files base_name workspace_root True =
        Some \<lparr>idx = length ?kept,
              info_files = zip (map (\<lambda>i. tracefile_name base_name i ''.info'')
                       [0..<length ?kept]) infos,
              json_files = zip (map (\<lambda>i. tracefile_name base_name i ''.json'')
                       [0..<length ?kept]) jsons\<rparr>"
    unfolding convert_dir_to_tracefiles_def by auto
  have len: "those (map f xs) = Some ys \<Longrightarrow> length ys = length xs"
    for f :: "string \<Rightarrow> 'b option" and xs ys
    by (induction xs arbitrary: ys) (auto split: option.splits)
  have "length infos = length ?kept" "length jsons = length ?kept"
    using len[OF i] len[OF j] by simp_all
  with i j l show ?thesis by simp
qed

text \<open>Four snapshots, the second of a header and the third without a source path:
  two pairs of artifacts, numbered 0 and 1.\<close>

lemma convert_example:
  "map_option (\<lambda>st. (idx st, map fst (info_files st), map fst (json_files st)))
     (convert_dir_to_tracefiles
        [''        -:    0:Source:../src/cat.c'' @ newline # ''        1:    1:x'',
         ''        -:    0:Source:../lib/quote.h'' @ newline # ''        1:    1:y'',
         ''        2:    1:z'',
         ''        -:    0:Source:../src/ls.c'' @ newline # ''    #####:    1:w'']
        ''0000_cat'' None True) =
   Some (2, [''0000_cat_00000.info'', ''0000_cat_00001.info''],
            [''0000_cat_00000.json'', ''0000_cat_00001.json''])"
  by code_simp

end
